theory Spec2Isabelle
  imports Main "HOL-Library.Monad_Syntax"
begin

section \<open>Data model\<close>

text \<open>
  A folder record as both \<^verbatim>\<open>index.js\<close> and the newer copy of the plugin build it in
  \<^verbatim>\<open>createFolder\<close>: \<^verbatim>\<open>{id, name, color, parentId, order}\<close>. The field \<^verbatim>\<open>id\<close> is
  called \<open>folder_id\<close> here (HOL already has \<open>id\<close>). \<^verbatim>\<open>parentId\<close> is a string or
  \<^verbatim>\<open>null\<close>; \<^verbatim>\<open>order\<close> is a number, taken as an integer.
\<close>

record folder =
  folder_id :: string
  name :: string
  color :: string
  parentId :: "string option"
  order :: int

text \<open>A session of the host's registry: \<^verbatim>\<open>{id, name?}\<close>.\<close>

record session =
  session_id :: string
  session_name :: "string option"

text \<open>
  JavaScript truthiness of a value that is a string or \<^verbatim>\<open>null\<close>: \<^verbatim>\<open>null\<close> and the
  empty string are falsy, every other string is truthy.
\<close>

definition truthy :: "string option \<Rightarrow> bool" where
  "truthy v = (case v of None \<Rightarrow> False | Some s \<Rightarrow> s \<noteq> [])"

text \<open>
  \<^verbatim>\<open>sessionFolders\<close> is a plain object (\<^verbatim>\<open>{}\<close>, or what \<^verbatim>\<open>JSON.parse\<close> builds) used as a
  dictionary. Its own properties are a map from session id to folder id; a read
  \<^verbatim>\<open>sessionFolders[key]\<close> that finds no own property goes on to \<^verbatim>\<open>Object.prototype\<close>,
  whose properties (those of the language standard, Annex B included) are functions,
  and for \<^verbatim>\<open>__proto__\<close> the prototype object itself: truthy values that are not strings.
\<close>

datatype js_value = Undefined | Null | Str string | Prototype_member

definition js_truthy :: "js_value \<Rightarrow> bool" where
  "js_truthy v =
     (case v of Undefined \<Rightarrow> False | Null \<Rightarrow> False | Str s \<Rightarrow> s \<noteq> []
      | Prototype_member \<Rightarrow> True)"

definition Object_prototype_keys :: "string list" where
  "Object_prototype_keys =
     [''constructor'', ''__proto__'', ''hasOwnProperty'', ''isPrototypeOf'',
      ''propertyIsEnumerable'', ''toLocaleString'', ''toString'', ''valueOf'',
      ''__defineGetter__'', ''__defineSetter__'', ''__lookupGetter__'', ''__lookupSetter__'']"

text \<open>The read \<^verbatim>\<open>obj[key]\<close>: the own property if there is one, else the inherited one.\<close>

definition js_get :: "(string \<rightharpoonup> string) \<Rightarrow> string \<Rightarrow> js_value" where
  "js_get obj key =
     (case obj key of
        Some v \<Rightarrow> Str v
      | None \<Rightarrow> if key \<in> set Object_prototype_keys then Prototype_member else Undefined)"

text \<open>
  The assignment \<^verbatim>\<open>obj[key] = v\<close> of a string \<open>v\<close>: it writes the own property,
  creating it when absent, except that with no own \<^verbatim>\<open>__proto__\<close> property the key
  \<^verbatim>\<open>__proto__\<close> reaches the setter of \<^verbatim>\<open>Object.prototype\<close>, which ignores a string.
  (\<^verbatim>\<open>delete obj[key]\<close> removes the own property, if any: \<open>obj(key := None)\<close>.)
\<close>

definition js_set :: "(string \<rightharpoonup> string) \<Rightarrow> string \<Rightarrow> string \<Rightarrow> (string \<rightharpoonup> string)" where
  "js_set obj key v = (if key = ''__proto__'' \<and> obj key = None then obj else obj(key \<mapsto> v))"

text \<open>
  The argument \<^verbatim>\<open>updates\<close> of \<^verbatim>\<open>updateFolder\<close>: every field may be absent
  (\<^verbatim>\<open>undefined\<close>, here \<open>None\<close>); a present \<^verbatim>\<open>parentId\<close> may itself be \<^verbatim>\<open>null\<close>.
\<close>

record updates =
  upd_name :: "string option"
  upd_color :: "string option"
  upd_parentId :: "string option option"
  upd_order :: "int option"

text \<open>
  The host's key-value storage, seen through the three documents the plugin reads and
  writes. A document is unreadable (absent on first run, or the read fails), corrupted
  (it is read but \<^verbatim>\<open>JSON.parse\<close> throws on it), or holds a value. \<open>write_fails\<close>
  says whether \<^verbatim>\<open>api.storage.write\<close> throws.
\<close>

datatype 'a document = Unreadable | Corrupted | Content 'a

record storage =
  folders_json :: "folder list document"
  session_folders_json :: "(string \<rightharpoonup> string) document"
  expanded_folders_json :: "string list document"
  write_fails :: bool

text \<open>
  The module state: \<^verbatim>\<open>folders\<close>, \<^verbatim>\<open>sessionFolders\<close> (the own properties of the object
  used as a dictionary from session id to folder id), \<^verbatim>\<open>expandedFolders\<close> (a \<^verbatim>\<open>Set\<close>, kept in insertion
  order), the storage behind \<^verbatim>\<open>api\<close>, the lines written to the console and the number
  of \<^verbatim>\<open>simplyterm-folders-changed\<close> events dispatched.
\<close>

record state =
  folders :: "folder list"
  sessionFolders :: "string \<rightharpoonup> string"
  expandedFolders :: "string list"
  api_storage :: storage
  console :: "string list"
  changed_events :: nat

datatype error = ReadError | SyntaxError

section \<open>Persistence\<close>

text \<open>
  Modelled from the spec: the host's \<^verbatim>\<open>api.storage.read\<close> (``fails when absent'') and the
  built-in \<^verbatim>\<open>JSON.parse\<close>, neither of which is in the repository. A read of an
  unreadable document throws; a corrupted document is read and handed on; parsing
  throws on a corrupted document.
\<close>

definition storage_read :: "'a document \<Rightarrow> error + 'a document" where
  "storage_read f = (case f of Unreadable \<Rightarrow> Inl ReadError | _ \<Rightarrow> Inr f)"

definition JSON_parse :: "'a document \<Rightarrow> error + 'a" where
  "JSON_parse f = (case f of Content v \<Rightarrow> Inr v | _ \<Rightarrow> Inl SyntaxError)"

text \<open>
  \<^verbatim>\<open>loadFolders\<close> and \<^verbatim>\<open>loadSessionFolders\<close>: the \<^verbatim>\<open>try\<close> block reads and parses, the
  \<^verbatim>\<open>catch\<close> block assigns the empty structure. The result is a sum so that an
  exception leaving the function would be an \<open>Inl\<close>.
\<close>

definition loadFolders :: "state \<Rightarrow> error + state" where
  "loadFolders st =
     (case (case storage_read (folders_json (api_storage st)) of
              Inl e \<Rightarrow> Inl e
            | Inr content \<Rightarrow> JSON_parse content) of
        Inr v \<Rightarrow> Inr (st\<lparr>folders := v\<rparr>)
      | Inl e \<Rightarrow> Inr (st\<lparr>folders := []\<rparr>))"

definition loadSessionFolders :: "state \<Rightarrow> error + state" where
  "loadSessionFolders st =
     (case (case storage_read (session_folders_json (api_storage st)) of
              Inl e \<Rightarrow> Inl e
            | Inr content \<Rightarrow> JSON_parse content) of
        Inr v \<Rightarrow> Inr (st\<lparr>sessionFolders := v\<rparr>)
      | Inl e \<Rightarrow> Inr (st\<lparr>sessionFolders := Map.empty\<rparr>))"

text \<open>
  \<^verbatim>\<open>saveFolders\<close> and \<^verbatim>\<open>saveSessionFolders\<close>: the whole current structure is written;
  a failing write is caught and logged.
\<close>

definition saveFolders :: "state \<Rightarrow> state" where
  "saveFolders st =
     (if write_fails (api_storage st)
      then st\<lparr>console := console st @ [''[Folders] Failed to save folders:'']\<rparr>
      else st\<lparr>api_storage := (api_storage st)\<lparr>folders_json := Content (folders st)\<rparr>\<rparr>)"

definition saveSessionFolders :: "state \<Rightarrow> state" where
  "saveSessionFolders st =
     (if write_fails (api_storage st)
      then st\<lparr>console := console st @ [''[Folders] Failed to save session-folders:'']\<rparr>
      else st\<lparr>api_storage :=
             (api_storage st)\<lparr>session_folders_json := Content (sessionFolders st)\<rparr>\<rparr>)"

text \<open>\<^verbatim>\<open>window.dispatchEvent(new CustomEvent('simplyterm-folders-changed'))\<close>.\<close>

definition dispatch_changed :: "state \<Rightarrow> state" where
  "dispatch_changed st = st\<lparr>changed_events := Suc (changed_events st)\<rparr>"

section \<open>Hierarchy model\<close>

text \<open>
  The repository holds the plugin source twice: \<^verbatim>\<open>index.js\<close> and a later copy that adds
  the persisted expansion state, the home panel and the change event. The definitions
  below follow the later copy. In the hierarchy model \<^verbatim>\<open>index.js\<close> differs from it in two
  ways only: its operations do not dispatch the change event, and its \<^verbatim>\<open>updateFolder\<close>
  has no cycle guard; that \<^verbatim>\<open>updateFolder\<close> is modelled separately as
  \<open>updateFolder_index\<close>.
\<close>

subsection \<open>Descendant enumeration\<close>

text \<open>
  \<^verbatim>\<open>getDescendantFolderIds\<close> filters the children of \<^verbatim>\<open>folderId\<close> out of the whole folder
  list and loops over them, pushing each child's id and then the result of the recursive
  call on that child. \<open>descend\<close> is that loop: its second argument is what is left of
  \<^verbatim>\<open>children\<close>. The recursion does not return on a cyclic \<^verbatim>\<open>parentId\<close> relation, which
  is the value \<open>None\<close>.
\<close>

partial_function (option) descend :: "folder list \<Rightarrow> folder list \<Rightarrow> string list option" where
  "descend fs children =
     (case children of
        [] \<Rightarrow> Some []
      | child # rest \<Rightarrow>
          do {
            sub \<leftarrow> descend fs (filter (\<lambda>f. parentId f = Some (folder_id child)) fs);
            more \<leftarrow> descend fs rest;
            Some (folder_id child # sub @ more)
          })"

definition getDescendantFolderIds :: "folder list \<Rightarrow> string \<Rightarrow> string list option" where
  "getDescendantFolderIds fs folderId = descend fs (filter (\<lambda>f. parentId f = Some folderId) fs)"

lemma descend_Nil [simp, code]: "descend fs [] = Some []"
  by (subst descend.simps) simp

lemma descend_Cons [simp, code]:
  "descend fs (child # rest) =
     do {
       sub \<leftarrow> descend fs (filter (\<lambda>f. parentId f = Some (folder_id child)) fs);
       more \<leftarrow> descend fs rest;
       Some (folder_id child # sub @ more)
     }"
  by (subst descend.simps) simp

subsection \<open>Operations\<close>

text \<open>
  \<^verbatim>\<open>createFolder(name, color = null, parentId = null)\<close>. The id is
  \<^verbatim>\<open>folder-${Date.now()}-${Math.random().toString(36).substring(2, 11)}\<close>; the two
  generated parts are the parameters \<open>stamp\<close> and \<open>rnd\<close>. The new folder is pushed,
  its id added to the expansion set, the list saved and the change event dispatched.
\<close>

definition set_add :: "string \<Rightarrow> string list \<Rightarrow> string list" where
  "set_add x xs = (if x \<in> set xs then xs else xs @ [x])"

definition createFolder ::
  "string \<Rightarrow> string \<Rightarrow> string \<Rightarrow> string option \<Rightarrow> string option \<Rightarrow> state \<Rightarrow> folder \<times> state" where
  "createFolder stamp rnd nm col parent st =
     (let i = ''folder-'' @ stamp @ ''-'' @ rnd;
          folder = \<lparr>folder_id = i,
                    name = nm,
                    color = (if truthy col then the col else ''#6c7086''),
                    parentId = parent,
                    order = int (length (filter (\<lambda>f. parentId f = parent) (folders st)))\<rparr>;
          st1 = st\<lparr>folders := folders st @ [folder]\<rparr>;
          st2 = st1\<lparr>expandedFolders := set_add i (expandedFolders st1)\<rparr>
      in (folder, dispatch_changed (saveFolders st2)))"

text \<open>\<^verbatim>\<open>folders.find(f => f.id === id)\<close> yields the first match; the object it yields is
  the element of the array, so assigning to its fields updates the list at that index.\<close>

fun find_index :: "('a \<Rightarrow> bool) \<Rightarrow> 'a list \<Rightarrow> nat option" where
  "find_index P [] = None"
| "find_index P (x # xs) =
     (if P x then Some 0 else map_option Suc (find_index P xs))"

text \<open>
  \<^verbatim>\<open>updateFolder(id, updates)\<close> of the newer copy. The name and the colour are assigned
  before the cycle guard is evaluated. The guard is skipped for a falsy \<^verbatim>\<open>parentId\<close>;
  \<^verbatim>\<open>||\<close> does not evaluate the descendant enumeration when \<^verbatim>\<open>parentId === id\<close>. A
  rejected call returns \<^verbatim>\<open>null\<close> after the warning, without saving or dispatching. The
  outer option is \<open>None\<close> when the enumeration does not return.
\<close>

definition updateFolder :: "string \<Rightarrow> updates \<Rightarrow> state \<Rightarrow> (folder option \<times> state) option" where
  "updateFolder i u st =
     (case find_index (\<lambda>f. folder_id f = i) (folders st) of
        None \<Rightarrow> Some (None, st)
      | Some k \<Rightarrow>
          let f0 = folders st ! k;
              f1 = (case upd_name u of None \<Rightarrow> f0 | Some n \<Rightarrow> f0\<lparr>name := n\<rparr>);
              f2 = (case upd_color u of None \<Rightarrow> f1 | Some c \<Rightarrow> f1\<lparr>color := c\<rparr>);
              st2 = st\<lparr>folders := (folders st)[k := f2]\<rparr>;
              reject = Some (None, st2\<lparr>console := console st2 @
                         [''[Folders] Cannot set parent: would create circular reference'']\<rparr>);
              finish = (\<lambda>f3.
                 let f4 = (case upd_order u of None \<Rightarrow> f3 | Some n \<Rightarrow> f3\<lparr>order := n\<rparr>);
                     st4 = st\<lparr>folders := (folders st)[k := f4]\<rparr>
                 in Some (Some f4, dispatch_changed (saveFolders st4)))
          in (case upd_parentId u of
                None \<Rightarrow> finish f2
              | Some p \<Rightarrow>
                  if truthy p \<and> p = Some i then reject
                  else if truthy p then
                    (case getDescendantFolderIds (folders st2) i of
                       None \<Rightarrow> None
                     | Some ds \<Rightarrow>
                         if the p \<in> set ds then reject
                         else finish (f2\<lparr>parentId := p\<rparr>))
                  else finish (f2\<lparr>parentId := p\<rparr>)))"

text \<open>
  \<^verbatim>\<open>updateFolder(id, updates)\<close> of \<^verbatim>\<open>index.js\<close>: the same function without the cycle
  guard and without the change event.
\<close>

definition updateFolder_index :: "string \<Rightarrow> updates \<Rightarrow> state \<Rightarrow> folder option \<times> state" where
  "updateFolder_index i u st =
     (case find_index (\<lambda>f. folder_id f = i) (folders st) of
        None \<Rightarrow> (None, st)
      | Some k \<Rightarrow>
          let f0 = folders st ! k;
              f1 = (case upd_name u of None \<Rightarrow> f0 | Some n \<Rightarrow> f0\<lparr>name := n\<rparr>);
              f2 = (case upd_color u of None \<Rightarrow> f1 | Some c \<Rightarrow> f1\<lparr>color := c\<rparr>);
              f3 = (case upd_parentId u of None \<Rightarrow> f2 | Some p \<Rightarrow> f2\<lparr>parentId := p\<rparr>);
              f4 = (case upd_order u of None \<Rightarrow> f3 | Some n \<Rightarrow> f3\<lparr>order := n\<rparr>);
              st4 = st\<lparr>folders := (folders st)[k := f4]\<rparr>
          in (Some f4, saveFolders st4))"

text \<open>
  \<^verbatim>\<open>deleteFolder(id)\<close>: the ids to remove are \<^verbatim>\<open>id\<close> and its descendants; every
  assignment whose value is one of them is deleted and the assignments saved; then the
  folders with one of these ids are filtered out, the list saved and the event dispatched.
\<close>

definition deleteFolder :: "string \<Rightarrow> state \<Rightarrow> state option" where
  "deleteFolder i st =
     (case getDescendantFolderIds (folders st) i of
        None \<Rightarrow> None
      | Some ds \<Rightarrow>
          let allFolderIds = i # ds;
              st1 = st\<lparr>sessionFolders :=
                      (\<lambda>sessionId. case sessionFolders st sessionId of
                                      None \<Rightarrow> None
                                    | Some folderId \<Rightarrow>
                                        if folderId \<in> set allFolderIds then None
                                        else Some folderId)\<rparr>;
              st2 = saveSessionFolders st1;
              st3 = st2\<lparr>folders := filter (\<lambda>f. folder_id f \<notin> set allFolderIds) (folders st2)\<rparr>
          in Some (dispatch_changed (saveFolders st3)))"

text \<open>\<^verbatim>\<open>moveSessionToFolder(sessionId, folderId)\<close>: a truthy folder id is assigned with
  \<^verbatim>\<open>sessionFolders[sessionId] = folderId\<close>, a falsy one (\<^verbatim>\<open>null\<close> or the empty string)
  runs \<^verbatim>\<open>delete sessionFolders[sessionId]\<close>.\<close>

definition moveSessionToFolder :: "string \<Rightarrow> string option \<Rightarrow> state \<Rightarrow> state" where
  "moveSessionToFolder sessionId folderId st =
     (let st1 = (if truthy folderId
                 then st\<lparr>sessionFolders := js_set (sessionFolders st) sessionId (the folderId)\<rparr>
                 else st\<lparr>sessionFolders := (sessionFolders st)(sessionId := None)\<rparr>)
      in dispatch_changed (saveSessionFolders st1))"

text \<open>\<^verbatim>\<open>getSessionFolder(sessionId)\<close> is \<^verbatim>\<open>sessionFolders[sessionId] || null\<close>: the value
  read when it is truthy, \<^verbatim>\<open>null\<close> otherwise.\<close>

definition getSessionFolder :: "state \<Rightarrow> string \<Rightarrow> js_value" where
  "getSessionFolder st sessionId =
     (if js_truthy (js_get (sessionFolders st) sessionId)
      then js_get (sessionFolders st) sessionId else Null)"

section \<open>View projector\<close>

text \<open>
  The built-in \<^verbatim>\<open>Array.prototype.sort(compare)\<close>: a stable sort (ECMAScript 2019) that
  puts \<open>a\<close> before \<open>b\<close> when \<open>compare a b\<close> is negative and keeps their order when it
  is zero. It is modelled as an insertion sort that inserts from the right end, each
  element going in front of the first one it does not compare greater than.
\<close>

fun js_insert :: "('a \<Rightarrow> 'a \<Rightarrow> int) \<Rightarrow> 'a \<Rightarrow> 'a list \<Rightarrow> 'a list" where
  "js_insert compare x [] = [x]"
| "js_insert compare x (y # ys) =
     (if compare x y \<le> 0 then x # y # ys else y # js_insert compare x ys)"

definition js_sort :: "('a \<Rightarrow> 'a \<Rightarrow> int) \<Rightarrow> 'a list \<Rightarrow> 'a list" where
  "js_sort compare xs = foldr (js_insert compare) xs []"

text \<open>
  What \<^verbatim>\<open>renderFolderItem\<close> writes for one folder, without the markup: the folder (its
  id, colour and name are interpolated), the depth (the left padding), whether the
  chevron is rotated (\<^verbatim>\<open>isExpanded\<close>) and shown (\<^verbatim>\<open>hasContent\<close>), the session count,
  and inside \<^verbatim>\<open>folder-content\<close> the rendered child folders followed by the session
  rows. The last two are empty when the content block is not written.
\<close>

datatype item =
  FolderItem (item_folder: folder) (item_depth: nat) (item_expanded: bool)
    (item_hasContent: bool) (item_count: nat) (item_children: "item list")
    (item_sessions: "session list")

text \<open>
  \<open>render_loop\<close> is the loop \<^verbatim>\<open>for (const f of list) html += renderFolderItem(f, sessions, depth)\<close>
  that both \<^verbatim>\<open>renderList\<close> (over the root folders) and \<^verbatim>\<open>renderFolderItem\<close> (over the
  sorted child folders) run, with the body of \<^verbatim>\<open>renderFolderItem\<close> in place of the call;
  \<open>hd list\<close> is the folder of the current iteration and \<open>tl list\<close> what is left to
  iterate over. It does not return when an expanded folder lies on a cycle.
\<close>

partial_function (option) render_loop ::
  "state \<Rightarrow> session list \<Rightarrow> nat \<Rightarrow> folder list \<Rightarrow> item list option" where
  "render_loop st sessions depth list =
     (if list = [] then Some []
      else
        let folder = hd list;
            rest = tl list;
            isExpanded = folder_id folder \<in> set (expandedFolders st);
            folderSessions =
              filter (\<lambda>s. js_get (sessionFolders st) (session_id s) = Str (folder_id folder)) sessions;
            childFolders = filter (\<lambda>f. parentId f = Some (folder_id folder)) (folders st);
            hasContent = (folderSessions \<noteq> [] \<or> childFolders \<noteq> [])
        in do {
             kids \<leftarrow>
               (if isExpanded \<and> hasContent
                then render_loop st sessions (depth + 1)
                       (js_sort (\<lambda>a b. order a - order b) childFolders)
                else Some []);
             more \<leftarrow> render_loop st sessions depth rest;
             Some (FolderItem folder depth isExpanded hasContent (length folderSessions) kids
                     (if isExpanded \<and> hasContent then folderSessions else [])
                   # more)
           })"

text \<open>\<^verbatim>\<open>renderFolderItem(folder, sessions, depth)\<close> as the source writes it.\<close>

definition renderFolderItem :: "state \<Rightarrow> folder \<Rightarrow> session list \<Rightarrow> nat \<Rightarrow> item option" where
  "renderFolderItem st folder sessions depth =
     (let isExpanded = folder_id folder \<in> set (expandedFolders st);
          folderSessions = filter (\<lambda>s. js_get (sessionFolders st) (session_id s) = Str (folder_id folder)) sessions;
          childFolders = filter (\<lambda>f. parentId f = Some (folder_id folder)) (folders st);
          hasContent = (folderSessions \<noteq> [] \<or> childFolders \<noteq> [])
      in do {
           kids \<leftarrow>
             (if isExpanded \<and> hasContent
              then render_loop st sessions (depth + 1) (js_sort (\<lambda>a b. order a - order b) childFolders)
              else Some []);
           Some (FolderItem folder depth isExpanded hasContent (length folderSessions) kids
                   (if isExpanded \<and> hasContent then folderSessions else []))
         })"

text \<open>
  \<^verbatim>\<open>renderList\<close>, for a mounted container: the root folders are those with a falsy
  \<^verbatim>\<open>parentId\<close>, sorted by \<^verbatim>\<open>order\<close>; the sessions with a falsy assignment go under
  ``Uncategorized''; with no folder at all the list reads ``No folders yet''.
\<close>

datatype view =
  NoFoldersYet
| Tree (view_items: "item list") (view_uncategorized: "session list option")

definition renderList :: "state \<Rightarrow> session list \<Rightarrow> view option" where
  "renderList st sessions =
     (let rootFolders = js_sort (\<lambda>a b. order a - order b)
                          (filter (\<lambda>f. \<not> truthy (parentId f)) (folders st));
          unfolderedSessions = filter (\<lambda>s. \<not> js_truthy (js_get (sessionFolders st) (session_id s))) sessions
      in do {
           items \<leftarrow> render_loop st sessions 0 rootFolders;
           Some (if length (folders st) = 0 then NoFoldersYet
                 else Tree items
                        (if length (folders st) > 0 \<and> length unfolderedSessions > 0
                         then Some unfolderedSessions else None))
         })"

lemma render_loop_Nil [simp, code]: "render_loop st sessions depth [] = Some []"
  by (subst render_loop.simps) simp

lemma render_loop_Cons [code]:
  "render_loop st sessions depth (folder # rest) =
     do {
       it \<leftarrow> renderFolderItem st folder sessions depth;
       more \<leftarrow> render_loop st sessions depth rest;
       Some (it # more)
     }"
  by (subst render_loop.simps) (simp add: renderFolderItem_def Let_def)

section \<open>Notions the properties are stated with\<close>

text \<open>
  The \<^verbatim>\<open>parentId\<close> relation on ids: \<open>(c, p)\<close> when some folder with id \<open>c\<close> has
  \<^verbatim>\<open>parentId === p\<close>. An ancestor of \<open>x\<close> is a \<open>p\<close> with \<open>(x, p)\<close> in the transitive
  closure, a descendant a \<open>c\<close> with \<open>(c, x)\<close> in it; the forest is acyclic when no id
  is its own ancestor.
\<close>

definition parent_rel :: "folder list \<Rightarrow> (string \<times> string) set" where
  "parent_rel fs = {(folder_id c, p) | c p. c \<in> set fs \<and> parentId c = Some p}"

text \<open>
  Depth-first pre-order, said without the program: \<open>subtree_at fs c t\<close> holds when \<open>t\<close>
  is the tree of ids that unfolds folder \<open>c\<close> along the child relation, the children of
  a folder taken in the order of the folder list; \<open>preorder\<close> lists a tree root first,
  then its subtrees from left to right.
\<close>

datatype tree = Node string "tree list"

fun preorder :: "tree \<Rightarrow> string list" where
  "preorder (Node x ts) = x # concat (map preorder ts)"

inductive subtree_at :: "folder list \<Rightarrow> folder \<Rightarrow> tree \<Rightarrow> bool" for fs where
  "list_all2 (subtree_at fs) (filter (\<lambda>f. parentId f = Some (folder_id c)) fs) ts \<Longrightarrow>
   subtree_at fs c (Node (folder_id c) ts)"

text \<open>All the folder items of a rendered subtree, the root first.\<close>

fun item_nodes :: "item \<Rightarrow> item list" where
  "item_nodes (FolderItem f d e h n kids ss) =
     FolderItem f d e h n kids ss # concat (map item_nodes kids)"

section \<open>The descendant enumeration\<close>

subsection \<open>The parent relation\<close>

lemma parent_rel_iff:
  "(y, x) \<in> parent_rel fs \<longleftrightarrow> (\<exists>c \<in> set fs. folder_id c = y \<and> parentId c = Some x)"
  by (auto simp: parent_rel_def)

lemma finite_parent_rel: "finite (parent_rel fs)"
proof -
  have "parent_rel fs \<subseteq> (\<lambda>c. (folder_id c, the (parentId c))) ` set fs"
    by (force simp: parent_rel_def image_iff)
  then show ?thesis by (rule finite_subset) simp
qed

lemma wf_parent_rel: "acyclic (parent_rel fs) \<Longrightarrow> wf (parent_rel fs)"
  by (simp add: finite_acyclic_wf finite_parent_rel)

lemma descend_loop_total:
  assumes "\<And>c. c \<in> set cs \<Longrightarrow> \<exists>ds. descend fs (filter (\<lambda>f. parentId f = Some (folder_id c)) fs) = Some ds"
  shows "\<exists>ds. descend fs cs = Some ds"
  using assms
proof (induction cs)
  case Nil
  then show ?case by simp
next
  case (Cons c cs)
  then obtain sub where "descend fs (filter (\<lambda>f. parentId f = Some (folder_id c)) fs) = Some sub"
    by (meson list.set_intros(1))
  moreover obtain more where "descend fs cs = Some more"
    using Cons by (meson list.set_intros(2))
  ultimately show ?case by simp
qed

lemma getDescendantFolderIds_total:
  assumes "acyclic (parent_rel fs)"
  shows "\<exists>ds. getDescendantFolderIds fs x = Some ds"
  using wf_parent_rel [OF assms]
proof (induction x rule: wf_induct_rule)
  case (less x)
  have "\<exists>ds. descend fs (filter (\<lambda>f. parentId f = Some x) fs) = Some ds"
  proof (rule descend_loop_total)
    fix c assume "c \<in> set (filter (\<lambda>f. parentId f = Some x) fs)"
    then have "(folder_id c, x) \<in> parent_rel fs"
      by (auto simp: parent_rel_iff)
    from less [OF this] show "\<exists>ds. descend fs (filter (\<lambda>f. parentId f = Some (folder_id c)) fs) = Some ds"
      by (simp add: getDescendantFolderIds_def)
  qed
  then show ?case by (simp add: getDescendantFolderIds_def)
qed

lemma trancl_parent_rel_iff:
  "(y, x) \<in> (parent_rel fs)\<^sup>+ \<longleftrightarrow>
     (\<exists>c \<in> set (filter (\<lambda>f. parentId f = Some x) fs). (y, folder_id c) \<in> (parent_rel fs)\<^sup>*)"
proof
  assume "(y, x) \<in> (parent_rel fs)\<^sup>+"
  then obtain z where "(y, z) \<in> (parent_rel fs)\<^sup>*" "(z, x) \<in> parent_rel fs"
    by (meson tranclD2)
  then show "\<exists>c \<in> set (filter (\<lambda>f. parentId f = Some x) fs). (y, folder_id c) \<in> (parent_rel fs)\<^sup>*"
    by (auto simp: parent_rel_iff)
next
  assume "\<exists>c \<in> set (filter (\<lambda>f. parentId f = Some x) fs). (y, folder_id c) \<in> (parent_rel fs)\<^sup>*"
  then obtain c where "c \<in> set fs" "parentId c = Some x" "(y, folder_id c) \<in> (parent_rel fs)\<^sup>*"
    by auto
  moreover have "(folder_id c, x) \<in> parent_rel fs"
    using calculation by (auto simp: parent_rel_iff)
  ultimately show "(y, x) \<in> (parent_rel fs)\<^sup>+"
    by (meson rtrancl_into_trancl1)
qed

lemma descend_set:
  assumes "descend fs cs = Some ds"
  shows "set ds = {y. \<exists>c \<in> set cs. (y, folder_id c) \<in> (parent_rel fs)\<^sup>*}"
proof (rule descend.raw_induct
    [where P = "\<lambda>fs cs ds. set ds = {y. \<exists>c \<in> set cs. (y, folder_id c) \<in> (parent_rel fs)\<^sup>*}",
      OF _ assms])
  fix d :: "folder list \<Rightarrow> folder list \<Rightarrow> string list option" and fs cs ds
  assume IH: "\<And>fs cs ds. d fs cs = Some ds \<Longrightarrow>
                set ds = {y. \<exists>c \<in> set cs. (y, folder_id c) \<in> (parent_rel fs)\<^sup>*}"
    and body: "(case cs of
        [] \<Rightarrow> Some []
      | child # rest \<Rightarrow>
          do {
            sub \<leftarrow> d fs (filter (\<lambda>f. parentId f = Some (folder_id child)) fs);
            more \<leftarrow> d fs rest;
            Some (folder_id child # sub @ more)
          }) = Some ds"
  show "set ds = {y. \<exists>c \<in> set cs. (y, folder_id c) \<in> (parent_rel fs)\<^sup>*}"
  proof (cases cs)
    case Nil
    with body show ?thesis by simp
  next
    case (Cons c rest)
    with body obtain sub more where
      sub: "d fs (filter (\<lambda>f. parentId f = Some (folder_id c)) fs) = Some sub" and
      more: "d fs rest = Some more" and
      ds: "ds = folder_id c # sub @ more"
      by (auto simp: bind_eq_Some_conv)
    have "set sub = {y. (y, folder_id c) \<in> (parent_rel fs)\<^sup>+}"
      using IH [OF sub] by (simp only: trancl_parent_rel_iff)
    moreover have "set more = {y. \<exists>c \<in> set rest. (y, folder_id c) \<in> (parent_rel fs)\<^sup>*}"
      using IH [OF more] .
    ultimately show ?thesis
      unfolding ds Cons by (auto simp: rtrancl_eq_or_trancl)
  qed
qed

lemma getDescendantFolderIds_set:
  assumes "getDescendantFolderIds fs x = Some ds"
  shows "set ds = {y. (y, x) \<in> (parent_rel fs)\<^sup>+}"
  using descend_set [OF assms [unfolded getDescendantFolderIds_def]]
  by (simp only: trancl_parent_rel_iff)

subsection \<open>Cycles\<close>

text \<open>
  The enumeration of a descendant is strictly shorter than that of its ancestor, so the
  enumeration cannot return when a cycle lies at or below the starting id.
\<close>

lemma descend_child_shorter:
  assumes "descend fs cs = Some ds" and "c \<in> set cs"
  shows "\<exists>sub. descend fs (filter (\<lambda>f. parentId f = Some (folder_id c)) fs) = Some sub \<and>
               length sub < length ds"
  using assms
proof (induction cs arbitrary: ds)
  case Nil
  then show ?case by simp
next
  case (Cons a rest)
  from Cons.prems(1) obtain sub more where
    sub: "descend fs (filter (\<lambda>f. parentId f = Some (folder_id a)) fs) = Some sub" and
    more: "descend fs rest = Some more" and
    ds: "ds = folder_id a # sub @ more"
    by (auto simp: bind_eq_Some_conv)
  show ?case
  proof (cases "c = a")
    case True
    with sub ds show ?thesis by simp
  next
    case False
    with Cons.prems(2) have "c \<in> set rest" by simp
    from Cons.IH [OF more this] ds show ?thesis by auto
  qed
qed

lemma getDescendantFolderIds_descendant_shorter:
  assumes "(y, x) \<in> (parent_rel fs)\<^sup>+" and "getDescendantFolderIds fs x = Some ds"
  shows "\<exists>ds'. getDescendantFolderIds fs y = Some ds' \<and> length ds' < length ds"
  using assms
proof (induction rule: converse_trancl_induct)
  case (base y)
  then obtain c where c: "c \<in> set (filter (\<lambda>f. parentId f = Some x) fs)" "folder_id c = y"
    by (auto simp: parent_rel_iff)
  from base(2) have "descend fs (filter (\<lambda>f. parentId f = Some x) fs) = Some ds"
    by (simp add: getDescendantFolderIds_def)
  from descend_child_shorter [OF this c(1)] c(2) show ?case
    by (simp add: getDescendantFolderIds_def)
next
  case (step y z)
  then obtain dz where dz: "getDescendantFolderIds fs z = Some dz" "length dz < length ds"
    by blast
  from step(1) obtain c where c: "c \<in> set (filter (\<lambda>f. parentId f = Some z) fs)" "folder_id c = y"
    by (auto simp: parent_rel_iff)
  from dz(1) have "descend fs (filter (\<lambda>f. parentId f = Some z) fs) = Some dz"
    by (simp add: getDescendantFolderIds_def)
  from descend_child_shorter [OF this c(1)] obtain sub where
    "descend fs (filter (\<lambda>f. parentId f = Some (folder_id c)) fs) = Some sub" "length sub < length dz"
    by blast
  with c(2) dz(2) have "getDescendantFolderIds fs y = Some sub \<and> length sub < length ds"
    by (simp add: getDescendantFolderIds_def)
  then show ?case by blast
qed

lemma getDescendantFolderIds_cycle_below:
  assumes "(y, x) \<in> (parent_rel fs)\<^sup>*" and "(y, y) \<in> (parent_rel fs)\<^sup>+"
  shows "getDescendantFolderIds fs x = None"
proof (rule ccontr)
  assume "getDescendantFolderIds fs x \<noteq> None"
  then obtain ds where ds: "getDescendantFolderIds fs x = Some ds" by auto
  have "\<exists>dy. getDescendantFolderIds fs y = Some dy"
  proof (cases "y = x")
    case True
    with ds show ?thesis by simp
  next
    case False
    with assms(1) have "(y, x) \<in> (parent_rel fs)\<^sup>+"
      by (simp add: rtrancl_eq_or_trancl)
    from getDescendantFolderIds_descendant_shorter [OF this ds] show ?thesis by blast
  qed
  then obtain dy where dy: "getDescendantFolderIds fs y = Some dy" ..
  from getDescendantFolderIds_descendant_shorter [OF assms(2) dy] dy show False
    by simp
qed

subsection \<open>Acyclic forests\<close>

lemma parent_rel_acyclic_by_rank:
  fixes rank :: "string \<Rightarrow> nat"
  assumes "\<And>c p. c \<in> set fs \<Longrightarrow> parentId c = Some p \<Longrightarrow> rank p < rank (folder_id c)"
  shows "acyclic (parent_rel fs)"
proof -
  have "acyclic ((measure rank)\<inverse>)"
    by (simp add: wf_acyclic)
  moreover have "parent_rel fs \<subseteq> (measure rank)\<inverse>"
    using assms by (auto simp: parent_rel_iff)
  ultimately show ?thesis by (rule acyclic_subset)
qed

subsection \<open>Frame lemmas of the persistence steps\<close>

lemma saveFolders_fields [simp]:
  "folders (saveFolders st) = folders st"
  "sessionFolders (saveFolders st) = sessionFolders st"
  "expandedFolders (saveFolders st) = expandedFolders st"
  "changed_events (saveFolders st) = changed_events st"
  by (simp_all add: saveFolders_def)

lemma saveSessionFolders_fields [simp]:
  "folders (saveSessionFolders st) = folders st"
  "sessionFolders (saveSessionFolders st) = sessionFolders st"
  "expandedFolders (saveSessionFolders st) = expandedFolders st"
  "changed_events (saveSessionFolders st) = changed_events st"
  by (simp_all add: saveSessionFolders_def)

lemma dispatch_changed_fields [simp]:
  "folders (dispatch_changed st) = folders st"
  "sessionFolders (dispatch_changed st) = sessionFolders st"
  "expandedFolders (dispatch_changed st) = expandedFolders st"
  "api_storage (dispatch_changed st) = api_storage st"
  "console (dispatch_changed st) = console st"
  by (simp_all add: dispatch_changed_def)

section \<open>An example store\<close>

text \<open>A small forest and a store around it, on which the theorems below are instantiated.\<close>

definition mk_folder :: "string \<Rightarrow> string option \<Rightarrow> int \<Rightarrow> folder" where
  "mk_folder i p k = \<lparr>folder_id = i, name = ''n'', color = ''#6c7086'', parentId = p, order = k\<rparr>"

definition example_folders :: "folder list" where
  "example_folders =
     [mk_folder ''w'' None 0,
      mk_folder ''w-api'' (Some ''w'') 0,
      mk_folder ''w-api-v1'' (Some ''w-api'') 0,
      mk_folder ''w-db'' (Some ''w'') 1,
      mk_folder ''home'' None 1]"

definition example_storage :: storage where
  "example_storage =
     \<lparr>folders_json = Unreadable, session_folders_json = Corrupted,
      expanded_folders_json = Unreadable, write_fails = False\<rparr>"

definition example_state :: state where
  "example_state =
     \<lparr>folders = example_folders,
      sessionFolders = [''s1'' \<mapsto> ''w-api'', ''s2'' \<mapsto> ''home''],
      expandedFolders = [''w'', ''w-api''],
      api_storage = example_storage,
      console = [],
      changed_events = 0\<rparr>"

lemma example_folders_acyclic: "acyclic (parent_rel example_folders)"
  by (rule parent_rel_acyclic_by_rank [where rank = length])
     (auto simp: example_folders_def mk_folder_def)

section \<open>Properties of the descendant enumeration\<close>

text \<open>
  C5: \<^verbatim>\<open>getDescendantFolderIds\<close> returns on every folder list whose \<^verbatim>\<open>parentId\<close> relation
  is acyclic, for every starting id and without any bound on the nesting depth. (The
  engine's call-stack limit is not part of the embedding.)
\<close>

theorem getDescendantFolderIds_terminates:
  assumes "acyclic (parent_rel fs)"
  shows "\<exists>ds. getDescendantFolderIds fs folderId = Some ds"
  using assms by (rule getDescendantFolderIds_total)

theorem getDescendantFolderIds_terminates_witness:
  "acyclic (parent_rel example_folders) \<and>
   (\<exists>ds. getDescendantFolderIds example_folders ''w'' = Some ds)"
  using getDescendantFolderIds_terminates [OF example_folders_acyclic, of "''w''"]
    example_folders_acyclic by simp

lemma descend_loop_preorder:
  assumes "\<And>c. c \<in> set cs \<Longrightarrow>
     \<exists>ts. list_all2 (subtree_at fs) (filter (\<lambda>f. parentId f = Some (folder_id c)) fs) ts \<and>
          descend fs (filter (\<lambda>f. parentId f = Some (folder_id c)) fs) = Some (concat (map preorder ts))"
  shows "\<exists>ts. list_all2 (subtree_at fs) cs ts \<and> descend fs cs = Some (concat (map preorder ts))"
  using assms
proof (induction cs)
  case Nil
  then show ?case by simp
next
  case (Cons c cs)
  obtain ts1 where ts1: "list_all2 (subtree_at fs) (filter (\<lambda>f. parentId f = Some (folder_id c)) fs) ts1"
    "descend fs (filter (\<lambda>f. parentId f = Some (folder_id c)) fs) = Some (concat (map preorder ts1))"
    using Cons.prems [of c] by auto
  obtain ts2 where ts2: "list_all2 (subtree_at fs) cs ts2" "descend fs cs = Some (concat (map preorder ts2))"
    using Cons.IH Cons.prems by auto
  have "subtree_at fs c (Node (folder_id c) ts1)"
    using ts1(1) by (rule subtree_at.intros)
  then have "list_all2 (subtree_at fs) (c # cs) (Node (folder_id c) ts1 # ts2)"
    using ts2(1) by simp
  moreover have "descend fs (c # cs) = Some (concat (map preorder (Node (folder_id c) ts1 # ts2)))"
    using ts1(2) ts2(2) by simp
  ultimately show ?case by blast
qed

lemma getDescendantFolderIds_is_preorder:
  assumes "acyclic (parent_rel fs)"
  shows "\<exists>ts. list_all2 (subtree_at fs) (filter (\<lambda>f. parentId f = Some x) fs) ts \<and>
              getDescendantFolderIds fs x = Some (concat (map preorder ts))"
  using wf_parent_rel [OF assms]
proof (induction x rule: wf_induct_rule)
  case (less x)
  have "\<exists>ts. list_all2 (subtree_at fs) (filter (\<lambda>f. parentId f = Some x) fs) ts \<and>
             descend fs (filter (\<lambda>f. parentId f = Some x) fs) = Some (concat (map preorder ts))"
  proof (rule descend_loop_preorder)
    fix c assume "c \<in> set (filter (\<lambda>f. parentId f = Some x) fs)"
    then have "(folder_id c, x) \<in> parent_rel fs"
      by (auto simp: parent_rel_iff)
    from less [OF this]
    show "\<exists>ts. list_all2 (subtree_at fs) (filter (\<lambda>f. parentId f = Some (folder_id c)) fs) ts \<and>
          descend fs (filter (\<lambda>f. parentId f = Some (folder_id c)) fs) = Some (concat (map preorder ts))"
      by (simp add: getDescendantFolderIds_def)
  qed
  then show ?case by (simp add: getDescendantFolderIds_def)
qed

text \<open>
  C4: in an acyclic forest, for every folder \<open>f\<close> of it, \<^verbatim>\<open>getDescendantFolderIds(f.id)\<close> is
  the pre-order listing of the trees that unfold the children of \<open>f\<close> along the child
  relation; its elements are exactly the descendants of \<open>f.id\<close>; it contains neither
  \<open>f.id\<close> nor any ancestor of \<open>f.id\<close>.
\<close>

theorem getDescendantFolderIds_preorder:
  assumes "acyclic (parent_rel fs)" and "f \<in> set fs"
  shows "\<exists>ts. list_all2 (subtree_at fs) (filter (\<lambda>c. parentId c = Some (folder_id f)) fs) ts \<and>
              getDescendantFolderIds fs (folder_id f) = Some (concat (map preorder ts)) \<and>
              set (concat (map preorder ts)) = {y. (y, folder_id f) \<in> (parent_rel fs)\<^sup>+} \<and>
              folder_id f \<notin> set (concat (map preorder ts)) \<and>
              (\<forall>a. (folder_id f, a) \<in> (parent_rel fs)\<^sup>+ \<longrightarrow> a \<notin> set (concat (map preorder ts)))"
proof -
  obtain ts where ts: "list_all2 (subtree_at fs) (filter (\<lambda>c. parentId c = Some (folder_id f)) fs) ts"
    "getDescendantFolderIds fs (folder_id f) = Some (concat (map preorder ts))"
    using getDescendantFolderIds_is_preorder [OF assms(1)] by blast
  have s: "set (concat (map preorder ts)) = {y. (y, folder_id f) \<in> (parent_rel fs)\<^sup>+}"
    using getDescendantFolderIds_set [OF ts(2)] .
  have "(folder_id f, folder_id f) \<notin> (parent_rel fs)\<^sup>+"
    using assms(1) by (simp add: acyclic_def)
  then have self: "folder_id f \<notin> set (concat (map preorder ts))"
    unfolding s by simp
  have anc: "a \<notin> set (concat (map preorder ts))" if "(folder_id f, a) \<in> (parent_rel fs)\<^sup>+" for a
  proof
    assume "a \<in> set (concat (map preorder ts))"
    then have "(a, folder_id f) \<in> (parent_rel fs)\<^sup>+" unfolding s by simp
    from this that have "(a, a) \<in> (parent_rel fs)\<^sup>+" by (rule trancl_trans)
    with assms(1) show False by (simp add: acyclic_def)
  qed
  from ts s self anc show ?thesis by blast
qed

theorem getDescendantFolderIds_preorder_witness:
  "acyclic (parent_rel example_folders) \<and> mk_folder ''w-api'' (Some ''w'') 0 \<in> set example_folders \<and>
   (\<exists>ts. list_all2 (subtree_at example_folders)
            (filter (\<lambda>c. parentId c = Some ''w-api'') example_folders) ts \<and>
         getDescendantFolderIds example_folders ''w-api'' = Some (concat (map preorder ts)) \<and>
         ''w-api'' \<notin> set (concat (map preorder ts)) \<and>
         ''w'' \<notin> set (concat (map preorder ts))) \<and>
   getDescendantFolderIds example_folders ''w-api'' = Some [''w-api-v1''] \<and>
   (''w-api'', ''w'') \<in> (parent_rel example_folders)\<^sup>+"
proof -
  have m: "mk_folder ''w-api'' (Some ''w'') 0 \<in> set example_folders"
    by (simp add: example_folders_def)
  have anc: "(''w-api'', ''w'') \<in> (parent_rel example_folders)\<^sup>+"
    by (rule r_into_trancl) (simp add: parent_rel_iff example_folders_def mk_folder_def)
  have v: "getDescendantFolderIds example_folders ''w-api'' = Some [''w-api-v1'']"
    by (simp add: getDescendantFolderIds_def example_folders_def mk_folder_def)
  from getDescendantFolderIds_preorder [OF example_folders_acyclic m] anc
  have "\<exists>ts. list_all2 (subtree_at example_folders)
            (filter (\<lambda>c. parentId c = Some ''w-api'') example_folders) ts \<and>
         getDescendantFolderIds example_folders ''w-api'' = Some (concat (map preorder ts)) \<and>
         ''w-api'' \<notin> set (concat (map preorder ts)) \<and>
         ''w'' \<notin> set (concat (map preorder ts))"
    by (simp add: mk_folder_def) blast
  with example_folders_acyclic m v anc show ?thesis by blast
qed

section \<open>Properties of the operations\<close>

text \<open>
  C3: in an acyclic forest, \<^verbatim>\<open>deleteFolder(id)\<close> for a present id returns; the folder list
  afterwards is the old one without the folders whose id is \<open>id\<close> or a descendant of
  \<open>id\<close>, every other folder kept in place; an assignment is dropped exactly when its
  value is \<open>id\<close> or a descendant of \<open>id\<close> and is unchanged otherwise; so no assignment
  afterwards points to the id of a removed folder.
\<close>

theorem deleteFolder_cascade:
  assumes "acyclic (parent_rel (folders st))" and "i \<in> folder_id ` set (folders st)"
  shows "\<exists>st'. deleteFolder i st = Some st' \<and>
           folders st' =
             filter (\<lambda>f. folder_id f \<noteq> i \<and> (folder_id f, i) \<notin> (parent_rel (folders st))\<^sup>+)
               (folders st) \<and>
           (\<forall>s. sessionFolders st' s =
                  (case sessionFolders st s of
                     None \<Rightarrow> None
                   | Some g \<Rightarrow>
                       if g = i \<or> (g, i) \<in> (parent_rel (folders st))\<^sup>+ then None else Some g)) \<and>
           (\<forall>s g. sessionFolders st' s = Some g \<longrightarrow>
                  g \<notin> folder_id ` (set (folders st) - set (folders st')))"
proof -
  obtain ds where ds: "getDescendantFolderIds (folders st) i = Some ds"
    using getDescendantFolderIds_total [OF assms(1)] by blast
  have s: "set ds = {y. (y, i) \<in> (parent_rel (folders st))\<^sup>+}"
    using getDescendantFolderIds_set [OF ds] .
  define st' where "st' = the (deleteFolder i st)"
  have del: "deleteFolder i st = Some st'"
    by (simp add: st'_def deleteFolder_def ds)
  have f: "folders st' =
             filter (\<lambda>f. folder_id f \<noteq> i \<and> (folder_id f, i) \<notin> (parent_rel (folders st))\<^sup>+)
               (folders st)"
    by (simp add: st'_def deleteFolder_def ds s Let_def)
  have m: "sessionFolders st' sid =
                  (case sessionFolders st sid of
                     None \<Rightarrow> None
                   | Some g \<Rightarrow>
                       if g = i \<or> (g, i) \<in> (parent_rel (folders st))\<^sup>+ then None else Some g)" for sid
    by (simp add: st'_def deleteFolder_def ds s Let_def split: option.splits)
  have "g \<notin> folder_id ` (set (folders st) - set (folders st'))"
    if "sessionFolders st' sid = Some g" for sid g
  proof
    assume "g \<in> folder_id ` (set (folders st) - set (folders st'))"
    then obtain x where "x \<in> set (folders st)" "x \<notin> set (folders st')" "folder_id x = g"
      by auto
    then have "g = i \<or> (g, i) \<in> (parent_rel (folders st))\<^sup>+"
      unfolding f by auto
    with that show False
      unfolding m by (auto split: option.splits if_splits)
  qed
  with del f m show ?thesis by blast
qed

theorem deleteFolder_cascade_witness:
  "acyclic (parent_rel (folders example_state)) \<and>
   ''w'' \<in> folder_id ` set (folders example_state) \<and>
   (\<exists>st'. deleteFolder ''w'' example_state = Some st' \<and>
          folders st' = [mk_folder ''home'' None 1] \<and>
          sessionFolders st' ''s1'' = None \<and>
          sessionFolders st' ''s2'' = Some ''home'')"
proof -
  have a: "acyclic (parent_rel (folders example_state))"
    using example_folders_acyclic by (simp add: example_state_def)
  have p: "''w'' \<in> folder_id ` set (folders example_state)"
    by (simp add: example_state_def example_folders_def mk_folder_def)
  have d: "getDescendantFolderIds (folders example_state) ''w'' = Some [''w-api'', ''w-api-v1'', ''w-db'']"
    by (simp add: getDescendantFolderIds_def example_state_def example_folders_def mk_folder_def)
  obtain st' where st': "deleteFolder ''w'' example_state = Some st'"
    using deleteFolder_cascade [OF a p] by blast
  have "folders st' = [mk_folder ''home'' None 1]"
    using st' unfolding deleteFolder_def d
    by (auto simp: Let_def example_state_def example_folders_def mk_folder_def)
  moreover have "sessionFolders st' ''s1'' = None" "sessionFolders st' ''s2'' = Some ''home''"
    using st' unfolding deleteFolder_def d
    by (auto simp: Let_def example_state_def)
  ultimately show ?thesis using a p st' by blast
qed

text \<open>A load fails when the read throws or the parse of what was read throws.\<close>

definition load_fails :: "'a document \<Rightarrow> bool" where
  "load_fails d =
     (case storage_read d of
        Inl e \<Rightarrow> True
      | Inr content \<Rightarrow> (case JSON_parse content of Inl e \<Rightarrow> True | Inr v \<Rightarrow> False))"

text \<open>
  C6: when the read or the parse of the folder document fails, \<^verbatim>\<open>loadFolders\<close> leaves the
  folder list empty, and likewise \<^verbatim>\<open>loadSessionFolders\<close> leaves the assignment map
  empty; neither ever lets an exception out.
\<close>

theorem load_defaults_on_failure:
  "(load_fails (folders_json (api_storage st)) \<longrightarrow> loadFolders st = Inr (st\<lparr>folders := []\<rparr>)) \<and>
   (load_fails (session_folders_json (api_storage st)) \<longrightarrow>
      loadSessionFolders st = Inr (st\<lparr>sessionFolders := Map.empty\<rparr>)) \<and>
   (\<exists>st'. loadFolders st = Inr st') \<and>
   (\<exists>st'. loadSessionFolders st = Inr st')"
  by (auto simp: load_fails_def loadFolders_def loadSessionFolders_def split: sum.splits)

theorem load_defaults_on_failure_witness:
  "load_fails (folders_json (api_storage example_state)) \<and>
   load_fails (session_folders_json (api_storage example_state)) \<and>
   loadFolders example_state = Inr (example_state\<lparr>folders := []\<rparr>) \<and>
   loadSessionFolders example_state = Inr (example_state\<lparr>sessionFolders := Map.empty\<rparr>)"
proof -
  have 1: "load_fails (folders_json (api_storage example_state))"
    by (simp add: load_fails_def example_state_def example_storage_def storage_read_def)
  have 2: "load_fails (session_folders_json (api_storage example_state))"
    by (simp add: load_fails_def example_state_def example_storage_def storage_read_def JSON_parse_def)
  from 1 2 load_defaults_on_failure [of example_state] show ?thesis by blast
qed

text \<open>
  C8: \<^verbatim>\<open>createFolder\<close> gives the new folder as \<^verbatim>\<open>order\<close> the number of folders that
  already have the same \<^verbatim>\<open>parentId\<close>, and appends exactly this one record to the folder
  list, whose old elements stay as they are.
\<close>

theorem createFolder_order_and_append:
  "order (fst (createFolder stamp rnd nm col parent st)) =
     int (length (filter (\<lambda>f. parentId f = parent) (folders st))) \<and>
   folders (snd (createFolder stamp rnd nm col parent st)) =
     folders st @ [fst (createFolder stamp rnd nm col parent st)] \<and>
   folder_id (fst (createFolder stamp rnd nm col parent st)) = ''folder-'' @ stamp @ ''-'' @ rnd \<and>
   name (fst (createFolder stamp rnd nm col parent st)) = nm \<and>
   parentId (fst (createFolder stamp rnd nm col parent st)) = parent \<and>
   sessionFolders (snd (createFolder stamp rnd nm col parent st)) = sessionFolders st"
  by (simp add: createFolder_def Let_def)

text \<open>
  C9, as the code has it: after \<^verbatim>\<open>moveSessionToFolder(s, f)\<close> with a non-empty \<open>f\<close>,
  \<^verbatim>\<open>getSessionFolder(s)\<close> is \<open>f\<close>, provided \<open>s\<close> is not \<^verbatim>\<open>__proto__\<close> (or the object has
  an own \<^verbatim>\<open>__proto__\<close> property); after a move to \<^verbatim>\<open>null\<close> or to the empty string it is
  \<^verbatim>\<open>null\<close>, provided \<open>s\<close> is not the name of a property of \<^verbatim>\<open>Object.prototype\<close>; the
  assignment of every other session, and what \<^verbatim>\<open>getSessionFolder\<close> returns for it, is
  unchanged in all cases.
\<close>

theorem moveSessionToFolder_roundtrip:
  "(f \<noteq> [] \<and> (s \<noteq> ''__proto__'' \<or> sessionFolders st s \<noteq> None) \<longrightarrow>
      getSessionFolder (moveSessionToFolder s (Some f) st) s = Str f) \<and>
   (s \<notin> set Object_prototype_keys \<longrightarrow>
      getSessionFolder (moveSessionToFolder s None st) s = Null \<and>
      getSessionFolder (moveSessionToFolder s (Some []) st) s = Null) \<and>
   (\<forall>s' g. s' \<noteq> s \<longrightarrow>
        sessionFolders (moveSessionToFolder s g st) s' = sessionFolders st s' \<and>
        getSessionFolder (moveSessionToFolder s g st) s' = getSessionFolder st s')"
proof (intro conjI impI allI)
  assume "f \<noteq> [] \<and> (s \<noteq> ''__proto__'' \<or> sessionFolders st s \<noteq> None)"
  then show "getSessionFolder (moveSessionToFolder s (Some f) st) s = Str f"
    by (auto simp: moveSessionToFolder_def getSessionFolder_def truthy_def js_get_def
        js_set_def js_truthy_def Let_def)
next
  assume "s \<notin> set Object_prototype_keys"
  then show "getSessionFolder (moveSessionToFolder s None st) s = Null"
    and "getSessionFolder (moveSessionToFolder s (Some []) st) s = Null"
    by (simp_all add: moveSessionToFolder_def getSessionFolder_def truthy_def js_get_def
        js_truthy_def Let_def)
next
  fix s' g
  assume "s' \<noteq> s"
  then show "sessionFolders (moveSessionToFolder s g st) s' = sessionFolders st s'"
    by (simp add: moveSessionToFolder_def js_set_def Let_def)
  then show "getSessionFolder (moveSessionToFolder s g st) s' = getSessionFolder st s'"
    by (simp add: getSessionFolder_def js_get_def)
qed

theorem moveSessionToFolder_roundtrip_witness:
  "''w-db'' \<noteq> [] \<and> ''s1'' \<noteq> ''__proto__'' \<and> ''s1'' \<notin> set Object_prototype_keys \<and>
   ''s2'' \<noteq> ''s1'' \<and>
   getSessionFolder (moveSessionToFolder ''s1'' (Some ''w-db'') example_state) ''s1'' = Str ''w-db'' \<and>
   getSessionFolder (moveSessionToFolder ''s1'' None example_state) ''s1'' = Null \<and>
   getSessionFolder (moveSessionToFolder ''s1'' (Some ''w-db'') example_state) ''s2'' = Str ''home''"
proof -
  have k: "''s1'' \<notin> set Object_prototype_keys"
    by (simp add: Object_prototype_keys_def)
  have "getSessionFolder example_state ''s2'' = Str ''home''"
    by (simp add: getSessionFolder_def example_state_def js_get_def js_truthy_def)
  with k moveSessionToFolder_roundtrip [of "''w-db''" "''s1''" example_state]
  show ?thesis by simp
qed

text \<open>
  Three inputs on which the round trip fails: the empty string is a non-null folder id
  that does not come back; the session id \<^verbatim>\<open>__proto__\<close> stores nothing and reads the
  prototype object; the session id \<^verbatim>\<open>constructor\<close>, once cleared, reads the inherited
  function and not \<^verbatim>\<open>null\<close>.
\<close>

theorem moveSessionToFolder_roundtrip_counterexample:
  "getSessionFolder (moveSessionToFolder ''s1'' (Some []) example_state) ''s1'' \<noteq> Str [] \<and>
   getSessionFolder (moveSessionToFolder ''__proto__'' (Some ''w-db'') example_state) ''__proto__''
     = Prototype_member \<and>
   getSessionFolder (moveSessionToFolder ''constructor'' None example_state) ''constructor''
     = Prototype_member"
  by (simp add: moveSessionToFolder_def getSessionFolder_def truthy_def js_get_def js_set_def
      js_truthy_def Let_def example_state_def Object_prototype_keys_def)

section \<open>Updating a folder\<close>

text \<open>What \<^verbatim>\<open>find\<close> yields: the first index where the predicate holds, if any.\<close>

lemma find_index_None: "find_index P xs = None \<longleftrightarrow> (\<forall>x \<in> set xs. \<not> P x)"
  by (induction xs) auto

lemma find_index_Some:
  "find_index P xs = Some k \<Longrightarrow> k < length xs \<and> P (xs ! k) \<and> (\<forall>j<k. \<not> P (xs ! j))"
proof (induction xs arbitrary: k)
  case Nil
  then show ?case by simp
next
  case (Cons x xs)
  show ?case
  proof (cases "P x")
    case True
    with Cons.prems show ?thesis by simp
  next
    case False
    with Cons.prems obtain k' where k': "find_index P xs = Some k'" "k = Suc k'"
      by auto
    from Cons.IH [OF k'(1)] False k'(2) show ?thesis
      by (auto simp: nth_Cons split: nat.splits)
  qed
qed

text \<open>
  The descendant enumeration reads nothing of a folder but its id and its \<^verbatim>\<open>parentId\<close>:
  two folder lists that agree on these, position by position, have the same enumeration
  (also when it does not return).
\<close>

definition key :: "folder \<Rightarrow> string \<times> string option" where
  "key f = (folder_id f, parentId f)"

lemma map_key_filter:
  "map key fs' = map key fs \<Longrightarrow>
   map key (filter (\<lambda>f. parentId f = p) fs') = map key (filter (\<lambda>f. parentId f = p) fs)"
proof (induction fs arbitrary: fs')
  case Nil
  then show ?case by simp
next
  case (Cons a fs)
  then obtain a' fs'' where *: "fs' = a' # fs''" "key a' = key a" "map key fs'' = map key fs"
    by auto
  have "parentId a' = parentId a"
    using *(2) by (simp add: key_def)
  with Cons.IH [OF *(3)] *(1,2) show ?case by simp
qed

lemma descend_key_Some:
  assumes "descend fs cs = Some ds"
  shows "map key fs' = map key fs \<Longrightarrow> map key cs' = map key cs \<Longrightarrow> descend fs' cs' = Some ds"
proof -
  have "\<forall>fs' cs'. map key fs' = map key fs \<longrightarrow> map key cs' = map key cs \<longrightarrow> descend fs' cs' = Some ds"
  proof (rule descend.raw_induct
      [where P = "\<lambda>fs cs ds. \<forall>fs' cs'. map key fs' = map key fs \<longrightarrow> map key cs' = map key cs \<longrightarrow>
                                 descend fs' cs' = Some ds",
        OF _ assms])
    fix d :: "folder list \<Rightarrow> folder list \<Rightarrow> string list option" and fs cs ds
    assume IH: "\<And>fs cs ds. d fs cs = Some ds \<Longrightarrow>
                  \<forall>fs' cs'. map key fs' = map key fs \<longrightarrow> map key cs' = map key cs \<longrightarrow>
                            descend fs' cs' = Some ds"
      and body: "(case cs of
          [] \<Rightarrow> Some []
        | child # rest \<Rightarrow>
            do {
              sub \<leftarrow> d fs (filter (\<lambda>f. parentId f = Some (folder_id child)) fs);
              more \<leftarrow> d fs rest;
              Some (folder_id child # sub @ more)
            }) = Some ds"
    show "\<forall>fs' cs'. map key fs' = map key fs \<longrightarrow> map key cs' = map key cs \<longrightarrow>
                    descend fs' cs' = Some ds"
    proof (intro allI impI)
      fix fs' cs'
      assume kf: "map key fs' = map key fs" and kc: "map key cs' = map key cs"
      show "descend fs' cs' = Some ds"
      proof (cases cs)
        case Nil
        with body kc show ?thesis by simp
      next
        case (Cons c rest)
        with body obtain sub more where
          sub: "d fs (filter (\<lambda>f. parentId f = Some (folder_id c)) fs) = Some sub" and
          more: "d fs rest = Some more" and
          ds: "ds = folder_id c # sub @ more"
          by (auto simp: bind_eq_Some_conv)
        from kc Cons obtain c' rest' where cs': "cs' = c' # rest'" "key c' = key c"
          "map key rest' = map key rest"
          by auto
        have idc: "folder_id c' = folder_id c"
          using cs'(2) by (simp add: key_def)
        have "descend fs' (filter (\<lambda>f. parentId f = Some (folder_id c')) fs') = Some sub"
          using IH [OF sub] kf map_key_filter [OF kf] idc by simp
        moreover have "descend fs' rest' = Some more"
          using IH [OF more] kf cs'(3) by simp
        ultimately show ?thesis
          by (simp add: cs'(1) ds idc)
      qed
    qed
  qed
  then show "map key fs' = map key fs \<Longrightarrow> map key cs' = map key cs \<Longrightarrow> descend fs' cs' = Some ds"
    by blast
qed

lemma getDescendantFolderIds_key:
  assumes "map key fs' = map key fs"
  shows "getDescendantFolderIds fs' x = getDescendantFolderIds fs x"
proof -
  have k: "map key (filter (\<lambda>f. parentId f = Some x) fs') = map key (filter (\<lambda>f. parentId f = Some x) fs)"
    using assms by (rule map_key_filter)
  show ?thesis
  proof (cases "getDescendantFolderIds fs x")
    case (Some ds)
    then show ?thesis
      using descend_key_Some [OF _ assms k] by (simp add: getDescendantFolderIds_def)
  next
    case None
    show ?thesis
    proof (cases "getDescendantFolderIds fs' x")
      case None
      with \<open>getDescendantFolderIds fs x = None\<close> show ?thesis by simp
    next
      case (Some ds)
      then have "getDescendantFolderIds fs x = Some ds"
        using descend_key_Some [OF _ assms [symmetric] k [symmetric]]
        by (simp add: getDescendantFolderIds_def)
      with None show ?thesis by simp
    qed
  qed
qed

lemma map_key_update:
  "k < length fs \<Longrightarrow> key f' = key (fs ! k) \<Longrightarrow> map key (fs[k := f']) = map key fs"
  by (simp add: map_update list_update_same_conv)

text \<open>
  The partial update said without the program: every field present in \<^verbatim>\<open>updates\<close> takes
  the given value, every absent one keeps its own; the id is not among the fields.
\<close>

definition apply_updates :: "updates \<Rightarrow> folder \<Rightarrow> folder" where
  "apply_updates u f =
     f\<lparr>name := (case upd_name u of None \<Rightarrow> name f | Some n \<Rightarrow> n),
       color := (case upd_color u of None \<Rightarrow> color f | Some c \<Rightarrow> c),
       parentId := (case upd_parentId u of None \<Rightarrow> parentId f | Some p \<Rightarrow> p),
       order := (case upd_order u of None \<Rightarrow> order f | Some n \<Rightarrow> n)\<rparr>"

text \<open>
  No cyclic re-parent is requested: \<^verbatim>\<open>updates\<close> has no \<^verbatim>\<open>parentId\<close>, or a falsy one, or
  one that is neither \<^verbatim>\<open>id\<close> nor in the enumeration of the descendants of \<^verbatim>\<open>id\<close> (which
  then has to return).
\<close>

definition reparent_allowed :: "string \<Rightarrow> updates \<Rightarrow> folder list \<Rightarrow> bool" where
  "reparent_allowed i u fs =
     (case upd_parentId u of
        None \<Rightarrow> True
      | Some p \<Rightarrow>
          if truthy p
          then p \<noteq> Some i \<and>
               (case getDescendantFolderIds fs i of None \<Rightarrow> False | Some ds \<Rightarrow> the p \<notin> set ds)
          else True)"


definition reparent_under_child :: updates where
  "reparent_under_child =
     \<lparr>upd_name = None, upd_color = None,
      upd_parentId = Some (Some ''w-api''), upd_order = None\<rparr>"

lemma apply_updates_unfold:
  "apply_updates u f =
     (let f1 = (case upd_name u of None \<Rightarrow> f | Some n \<Rightarrow> f\<lparr>name := n\<rparr>);
          f2 = (case upd_color u of None \<Rightarrow> f1 | Some c \<Rightarrow> f1\<lparr>color := c\<rparr>);
          f3 = (case upd_parentId u of None \<Rightarrow> f2 | Some p \<Rightarrow> f2\<lparr>parentId := p\<rparr>)
      in (case upd_order u of None \<Rightarrow> f3 | Some n \<Rightarrow> f3\<lparr>order := n\<rparr>))"
  by (simp add: apply_updates_def Let_def split: option.splits)


lemma find_index_present:
  assumes "i \<in> folder_id ` set (folders st)"
  obtains k where "find_index (\<lambda>f. folder_id f = i) (folders st) = Some k"
    "k < length (folders st)" "folder_id (folders st ! k) = i"
    "\<forall>j<k. folder_id (folders st ! j) \<noteq> i"
proof -
  have "find_index (\<lambda>f. folder_id f = i) (folders st) \<noteq> None"
    using assms by (auto simp: find_index_None)
  then obtain k where k: "find_index (\<lambda>f. folder_id f = i) (folders st) = Some k"
    by auto
  from find_index_Some [OF k] k that show thesis by blast
qed

lemma guard_folders:
  assumes "k < length fs" 
  shows "getDescendantFolderIds
           (fs[k := (case c of None \<Rightarrow> (case n of None \<Rightarrow> fs ! k | Some n \<Rightarrow> (fs ! k)\<lparr>name := n\<rparr>)
                     | Some c \<Rightarrow> (case n of None \<Rightarrow> fs ! k | Some n \<Rightarrow> (fs ! k)\<lparr>name := n\<rparr>)\<lparr>color := c\<rparr>)]) i =
         getDescendantFolderIds fs i"
  by (rule getDescendantFolderIds_key, rule map_key_update [OF assms])
     (simp add: key_def split: option.splits)

lemma updateFolder_known:
  assumes k: "find_index (\<lambda>f. folder_id f = i) (folders st) = Some k"
    and ok: "reparent_allowed i u (folders st)"
  shows "updateFolder i u st =
           Some (Some (apply_updates u (folders st ! k)),
                 dispatch_changed (saveFolders
                   (st\<lparr>folders := (folders st)[k := apply_updates u (folders st ! k)]\<rparr>)))"
proof -
  have len: "k < length (folders st)"
    using find_index_Some [OF k] by simp
  show ?thesis
  proof (cases "upd_parentId u")
    case None
    then show ?thesis
      by (simp add: updateFolder_def k Let_def apply_updates_unfold)
  next
    case (Some p)
    show ?thesis
    proof (cases "truthy p")
      case False
      with Some show ?thesis
        by (simp add: updateFolder_def k Let_def apply_updates_unfold)
    next
      case True
      with ok Some obtain ds where ds: "p \<noteq> Some i" "getDescendantFolderIds (folders st) i = Some ds"
        "the p \<notin> set ds"
        by (auto simp: reparent_allowed_def split: option.splits)
      from Some True ds show ?thesis
        by (simp add: updateFolder_def k Let_def apply_updates_unfold guard_folders [OF len])
    qed
  qed
qed



lemma example_descendants_w:
  "getDescendantFolderIds (folders example_state) ''w'' = Some [''w-api'', ''w-api-v1'', ''w-db'']"
  by (simp add: getDescendantFolderIds_def example_state_def example_folders_def mk_folder_def)




section \<open>The cycle guard\<close>

text \<open>
  The guard of the newer copy, for updates that carry a \<^verbatim>\<open>parentId\<close> and nothing else, in
  a store whose folder ids are non-empty (as the generated ids are): a parent that is
  the folder itself or one of its enumerated descendants is refused, with no change but
  the warning on the console; any other parent is stored.
\<close>

definition only_parentId :: "string option \<Rightarrow> updates" where
  "only_parentId p = \<lparr>upd_name = None, upd_color = None, upd_parentId = Some p, upd_order = None\<rparr>"

lemma descendants_are_folder_ids:
  assumes "getDescendantFolderIds fs i = Some ds" and "x \<in> set ds"
  shows "x \<in> folder_id ` set fs"
proof -
  have "(x, i) \<in> (parent_rel fs)\<^sup>+"
    using getDescendantFolderIds_set [OF assms(1)] assms(2) by simp
  then obtain z where "(x, z) \<in> parent_rel fs"
    by (meson tranclD)
  then show ?thesis by (auto simp: parent_rel_iff)
qed

lemma updateFolder_guard_rejects:
  assumes present: "i \<in> folder_id ` set (folders st)"
    and ids: "\<forall>f \<in> set (folders st). folder_id f \<noteq> []"
    and x: "x = i \<or> (\<exists>ds. getDescendantFolderIds (folders st) i = Some ds \<and> x \<in> set ds)"
  shows "updateFolder i (only_parentId (Some x)) st =
           Some (None, st\<lparr>console := console st @
                   [''[Folders] Cannot set parent: would create circular reference'']\<rparr>)"
proof -
  obtain k where k: "find_index (\<lambda>f. folder_id f = i) (folders st) = Some k"
    "k < length (folders st)"
    using present by (rule find_index_present)
  have same: "(folders st)[k := folders st ! k] = folders st"
    by simp
  have st: "st\<lparr>folders := folders st\<rparr> = st"
    by simp
  from x show ?thesis
  proof
    assume "x = i"
    moreover have "i \<noteq> []"
      using present ids by auto
    ultimately show ?thesis
      by (simp add: updateFolder_def k only_parentId_def Let_def truthy_def)
  next
    assume "\<exists>ds. getDescendantFolderIds (folders st) i = Some ds \<and> x \<in> set ds"
    then obtain ds where ds: "getDescendantFolderIds (folders st) i = Some ds" "x \<in> set ds"
      by blast
    have "x \<noteq> []"
      using descendants_are_folder_ids [OF ds] ids by auto
    with ds show ?thesis
      by (simp add: updateFolder_def k only_parentId_def Let_def truthy_def)
  qed
qed

lemma updateFolder_guard_accepts:
  assumes present: "i \<in> folder_id ` set (folders st)"
    and x: "x \<noteq> i" "getDescendantFolderIds (folders st) i = Some ds" "x \<notin> set ds"
  shows "\<exists>k f' st'. find_index (\<lambda>f. folder_id f = i) (folders st) = Some k \<and>
           f' = (folders st ! k)\<lparr>parentId := Some x\<rparr> \<and>
           updateFolder i (only_parentId (Some x)) st = Some (Some f', st') \<and>
           folders st' = (folders st)[k := f']"
proof -
  obtain k where k: "find_index (\<lambda>f. folder_id f = i) (folders st) = Some k"
    using present by (rule find_index_present)
  have "reparent_allowed i (only_parentId (Some x)) (folders st)"
    using x by (simp add: reparent_allowed_def only_parentId_def)
  from updateFolder_known [OF k this] k show ?thesis
    by (simp add: apply_updates_def only_parentId_def)
qed

text \<open>
  C1: a re-parent of a folder under itself or under one of its descendants is to be
  rejected, returning \<^verbatim>\<open>null\<close> and leaving the state as it was. In the example store
  \<open>w-api\<close> is a descendant of \<open>w\<close>. Asked to put \<open>w\<close> under \<open>w-api\<close>,
  \<^verbatim>\<open>updateFolder\<close> of \<^verbatim>\<open>index.js\<close> returns the folder and stores the new parent; the
  newer copy returns \<^verbatim>\<open>null\<close> and only logs the warning.
\<close>

theorem updateFolder_index_accepts_cyclic_reparent:
  "getDescendantFolderIds (folders example_state) ''w'' = Some [''w-api'', ''w-api-v1'', ''w-db''] \<and>
   fst (updateFolder_index ''w'' reparent_under_child example_state) =
     Some \<lparr>folder_id = ''w'', name = ''n'', color = ''#6c7086'',
           parentId = Some ''w-api'', order = 0\<rparr> \<and>
   map parentId (folders (snd (updateFolder_index ''w'' reparent_under_child example_state))) =
     [Some ''w-api'', Some ''w'', Some ''w-api'', Some ''w'', None] \<and>
   updateFolder ''w'' reparent_under_child example_state =
     Some (None, example_state\<lparr>console :=
        [''[Folders] Cannot set parent: would create circular reference'']\<rparr>)"
proof -
  have i: "find_index (\<lambda>f. folder_id f = ''w'') (folders example_state) = Some 0"
    by (simp add: example_state_def example_folders_def mk_folder_def)
  have 1: "fst (updateFolder_index ''w'' reparent_under_child example_state) =
     Some \<lparr>folder_id = ''w'', name = ''n'', color = ''#6c7086'',
           parentId = Some ''w-api'', order = 0\<rparr>"
    by (simp add: updateFolder_index_def i Let_def reparent_under_child_def)
       (simp add: example_state_def example_folders_def mk_folder_def)
  have 2: "map parentId (folders (snd (updateFolder_index ''w'' reparent_under_child example_state))) =
     [Some ''w-api'', Some ''w'', Some ''w-api'', Some ''w'', None]"
    by (simp add: updateFolder_index_def i Let_def reparent_under_child_def)
       (simp add: example_state_def example_folders_def mk_folder_def)
  have 3: "updateFolder ''w'' reparent_under_child example_state =
     Some (None, example_state\<lparr>console :=
        [''[Folders] Cannot set parent: would create circular reference'']\<rparr>)"
    by (simp add: updateFolder_def i Let_def reparent_under_child_def truthy_def
          example_descendants_w)
       (simp add: example_state_def)
  from example_descendants_w 1 2 3 show ?thesis by blast
qed

section \<open>Acyclicity as an invariant\<close>

text \<open>
  The states the store of the newer copy moves through: any number of \<^verbatim>\<open>createFolder\<close>,
  \<^verbatim>\<open>updateFolder\<close>, \<^verbatim>\<open>deleteFolder\<close> and \<^verbatim>\<open>moveSessionToFolder\<close> calls that return. The id
  that \<^verbatim>\<open>createFolder\<close> generates from the clock and the random source is taken to be
  new: no folder has it as id or as \<^verbatim>\<open>parentId\<close>, and it is not the parent asked for.
\<close>

definition fresh_id :: "string \<Rightarrow> string option \<Rightarrow> folder list \<Rightarrow> bool" where
  "fresh_id i parent fs =
     (parent \<noteq> Some i \<and> i \<notin> folder_id ` set fs \<and> Some i \<notin> parentId ` set fs)"

inductive reachable :: "state \<Rightarrow> state \<Rightarrow> bool" for st0 where
  start: "reachable st0 st0"
| create: "reachable st0 st \<Longrightarrow> fresh_id (''folder-'' @ stamp @ ''-'' @ rnd) parent (folders st) \<Longrightarrow>
           reachable st0 (snd (createFolder stamp rnd nm col parent st))"
| update: "reachable st0 st \<Longrightarrow> updateFolder i u st = Some (r, st') \<Longrightarrow> reachable st0 st'"
| delete: "reachable st0 st \<Longrightarrow> deleteFolder i st = Some st' \<Longrightarrow> reachable st0 st'"
| move: "reachable st0 st \<Longrightarrow> reachable st0 (moveSessionToFolder s g st)"

text \<open>A forest is well formed when it is acyclic and no folder has the empty id.\<close>

definition well_formed :: "folder list \<Rightarrow> bool" where
  "well_formed fs = (acyclic (parent_rel fs) \<and> [] \<notin> folder_id ` set fs)"

lemma parent_rel_append1:
  "parent_rel (fs @ [f]) =
     (case parentId f of None \<Rightarrow> parent_rel fs | Some p \<Rightarrow> insert (folder_id f, p) (parent_rel fs))"
  by (auto simp: parent_rel_def split: option.splits)

lemma parent_rel_filter: "parent_rel (filter P fs) \<subseteq> parent_rel fs"
  by (auto simp: parent_rel_def)

lemma parent_rel_update_subset:
  assumes "k < length fs" "folder_id f' = folder_id (fs ! k)"
  shows "parent_rel (fs[k := f']) \<subseteq>
           (case parentId f' of None \<Rightarrow> parent_rel fs
            | Some p \<Rightarrow> insert (folder_id (fs ! k), p) (parent_rel fs))"
proof
  fix e assume "e \<in> parent_rel (fs[k := f'])"
  then obtain c p where e: "e = (folder_id c, p)" "c \<in> set (fs[k := f'])" "parentId c = Some p"
    by (auto simp: parent_rel_def)
  from e(2) have "c = f' \<or> c \<in> set fs"
    by (meson insertE set_update_subset_insert subsetD)
  then show "e \<in> (case parentId f' of None \<Rightarrow> parent_rel fs
            | Some p \<Rightarrow> insert (folder_id (fs ! k), p) (parent_rel fs))"
    using e assms by (auto simp: parent_rel_def split: option.splits)
qed

lemma rtrancl_into_Domain:
  "(a, b) \<in> r\<^sup>* \<Longrightarrow> a \<noteq> b \<Longrightarrow> a \<in> Domain r"
  by (metis Domain.DomainI converse_rtranclE)

lemma rtrancl_into_Range:
  "(a, b) \<in> r\<^sup>* \<Longrightarrow> a \<noteq> b \<Longrightarrow> b \<in> Range r"
  by (metis Range.intros rtranclE)

lemma Domain_parent_rel: "Domain (parent_rel fs) \<subseteq> folder_id ` set fs"
  by (auto simp: parent_rel_def)

lemma Range_parent_rel: "p \<in> Range (parent_rel fs) \<Longrightarrow> Some p \<in> parentId ` set fs"
  by (force simp: parent_rel_def)

lemma createFolder_fields:
  "folders (snd (createFolder stamp rnd nm col parent st)) =
     folders st @ [fst (createFolder stamp rnd nm col parent st)]"
  "folder_id (fst (createFolder stamp rnd nm col parent st)) = ''folder-'' @ stamp @ ''-'' @ rnd"
  "parentId (fst (createFolder stamp rnd nm col parent st)) = parent"
  by (simp_all add: createFolder_def Let_def)

lemma createFolder_well_formed:
  assumes "well_formed (folders st)"
    and "fresh_id (''folder-'' @ stamp @ ''-'' @ rnd) parent (folders st)"
  shows "well_formed (folders (snd (createFolder stamp rnd nm col parent st)))"
proof -
  let ?i = "''folder-'' @ stamp @ ''-'' @ rnd"
  let ?f = "fst (createFolder stamp rnd nm col parent st)"
  have fs: "folders (snd (createFolder stamp rnd nm col parent st)) = folders st @ [?f]"
    and i: "folder_id ?f = ?i" and p: "parentId ?f = parent"
    by (rule createFolder_fields)+
  have "acyclic (parent_rel (folders st @ [?f]))"
  proof (cases parent)
    case None
    with assms(1) p show ?thesis
      by (simp add: parent_rel_append1 well_formed_def)
  next
    case (Some q)
    have "(q, ?i) \<notin> (parent_rel (folders st))\<^sup>*"
    proof
      assume "(q, ?i) \<in> (parent_rel (folders st))\<^sup>*"
      moreover have "q \<noteq> ?i"
        using assms(2) Some by (simp add: fresh_id_def)
      ultimately have "?i \<in> Range (parent_rel (folders st))"
        by (rule rtrancl_into_Range)
      then have "Some ?i \<in> parentId ` set (folders st)"
        by (rule Range_parent_rel)
      with assms(2) show False by (simp add: fresh_id_def)
    qed
    with assms(1) Some p i show ?thesis
      by (simp add: parent_rel_append1 well_formed_def)
  qed
  moreover have "[] \<notin> folder_id ` set (folders st @ [?f])"
    using assms(1) i by (auto simp: well_formed_def)
  ultimately show ?thesis
    by (simp add: fs well_formed_def)
qed


lemma updateFolder_shape:
  assumes "updateFolder i u st = Some (r, st')"
  shows "folders st' = folders st \<or>
         (\<exists>k f'. k < length (folders st) \<and> folder_id (folders st ! k) = i \<and>
              folders st' = (folders st)[k := f'] \<and> folder_id f' = i \<and>
              (parentId f' = parentId (folders st ! k) \<or> \<not> truthy (parentId f') \<or>
               (parentId f' \<noteq> Some i \<and>
                (\<exists>ds. getDescendantFolderIds (folders st) i = Some ds \<and>
                      the (parentId f') \<notin> set ds))))"
proof (cases "find_index (\<lambda>f. folder_id f = i) (folders st)")
  case None
  with assms show ?thesis by (simp add: updateFolder_def)
next
  case (Some k)
  note fi = Some
  from find_index_Some [OF Some]
  have k: "k < length (folders st)" "folder_id (folders st ! k) = i"
    by simp_all
  define f2 where "f2 = (case upd_color u of
       None \<Rightarrow> (case upd_name u of None \<Rightarrow> folders st ! k | Some n \<Rightarrow> (folders st ! k)\<lparr>name := n\<rparr>)
     | Some c \<Rightarrow> (case upd_name u of None \<Rightarrow> folders st ! k | Some n \<Rightarrow> (folders st ! k)\<lparr>name := n\<rparr>)\<lparr>color := c\<rparr>)"
  have f2: "folder_id f2 = i" "parentId f2 = parentId (folders st ! k)"
    using k(2) by (simp_all add: f2_def split: option.splits)
  have g: "getDescendantFolderIds ((folders st)[k := f2]) i = getDescendantFolderIds (folders st) i"
    unfolding f2_def by (rule guard_folders [OF k(1)])
  define fin where "fin = (\<lambda>f3::folder. case upd_order u of None \<Rightarrow> f3 | Some n \<Rightarrow> f3\<lparr>order := n\<rparr>)"
  have fin: "folder_id (fin f) = folder_id f" "parentId (fin f) = parentId f" for f
    by (simp_all add: fin_def split: option.splits)
  define warned where "warned =
     st\<lparr>folders := (folders st)[k := f2],
        console := console st @ [''[Folders] Cannot set parent: would create circular reference'']\<rparr>"
  define done_with where "done_with = (\<lambda>f3::folder.
     Some (Some (fin f3), dispatch_changed (saveFolders (st\<lparr>folders := (folders st)[k := fin f3]\<rparr>))))"
  have unfold: "updateFolder i u st =
     (case upd_parentId u of
        None \<Rightarrow> done_with f2
      | Some p \<Rightarrow>
          if truthy p \<and> p = Some i then Some (None, warned)
          else if truthy p then
            (case getDescendantFolderIds (folders st) i of
               None \<Rightarrow> None
             | Some ds \<Rightarrow> if the p \<in> set ds then Some (None, warned)
                          else done_with (f2\<lparr>parentId := p\<rparr>))
          else done_with (f2\<lparr>parentId := p\<rparr>))"
  proof (cases "upd_parentId u")
    case None
    then show ?thesis
      by (simp add: updateFolder_def fi Let_def f2_def fin_def done_with_def)
  next
    case p: (Some p)
    show ?thesis
    proof (cases "truthy p")
      case False
      with p show ?thesis
        by (simp add: updateFolder_def fi Let_def f2_def fin_def done_with_def)
    next
      case True
      show ?thesis
      proof (cases "p = Some i")
        case True
        with p \<open>truthy p\<close> show ?thesis
          by (simp add: updateFolder_def fi Let_def f2_def warned_def)
      next
        case False
        show ?thesis
        proof (cases "getDescendantFolderIds (folders st) i")
          case None
          with p \<open>truthy p\<close> False show ?thesis
            by (simp add: updateFolder_def fi Let_def guard_folders [OF k(1)])
        next
          case (Some ds)
          with p \<open>truthy p\<close> False show ?thesis
            by (simp add: updateFolder_def fi Let_def guard_folders [OF k(1)]
                f2_def fin_def done_with_def warned_def)
        qed
      qed
    qed
  qed
  have w: "folders warned = (folders st)[k := f2]"
    by (simp add: warned_def)
  have cases: "folders st' = (folders st)[k := f2] \<or>
       (upd_parentId u = None \<and> folders st' = (folders st)[k := fin f2]) \<or>
       (\<exists>p. upd_parentId u = Some p \<and> folders st' = (folders st)[k := fin (f2\<lparr>parentId := p\<rparr>)] \<and>
            (\<not> truthy p \<or> (p \<noteq> Some i \<and>
                (\<exists>ds. getDescendantFolderIds (folders st) i = Some ds \<and> the p \<notin> set ds))))"
    using assms w unfolding unfold done_with_def
    by (auto split: option.splits if_splits)
  then consider
      (a) "folders st' = (folders st)[k := f2]"
    | (b) "folders st' = (folders st)[k := fin f2]"
    | (c) p where "folders st' = (folders st)[k := fin (f2\<lparr>parentId := p\<rparr>)]"
          "\<not> truthy p \<or> (p \<noteq> Some i \<and>
                (\<exists>ds. getDescendantFolderIds (folders st) i = Some ds \<and> the p \<notin> set ds))"
    by blast
  then show ?thesis
  proof cases
    case a
    with k f2 show ?thesis by blast
  next
    case b
    with k f2 fin show ?thesis by metis
  next
    case c
    moreover have "folder_id (fin (f2\<lparr>parentId := p\<rparr>)) = i" "parentId (fin (f2\<lparr>parentId := p\<rparr>)) = p"
      using f2 by (simp_all add: fin)
    ultimately show ?thesis using k by metis
  qed
qed

lemma parent_rel_same_parent:
  assumes "k < length fs" "folder_id f' = folder_id (fs ! k)" "parentId f' = parentId (fs ! k)"
  shows "parent_rel (fs[k := f']) = parent_rel fs"
proof -
  have "map key (fs[k := f']) = map key fs"
    using assms by (intro map_key_update) (simp_all add: key_def)
  then have "set (map key (fs[k := f'])) = set (map key fs)"
    by simp
  moreover have "parent_rel xs = {(a, p). (a, Some p) \<in> set (map key xs)}" for xs
    by (auto simp: parent_rel_def key_def image_iff)
  ultimately show ?thesis by simp
qed

lemma update_ids:
  assumes "k < length fs" "folder_id f' = folder_id (fs ! k)"
  shows "folder_id ` set (fs[k := f']) \<subseteq> folder_id ` set fs"
proof
  fix a assume "a \<in> folder_id ` set (fs[k := f'])"
  then obtain c where "c \<in> set (fs[k := f'])" "a = folder_id c" by auto
  then have "c = f' \<or> c \<in> set fs"
    by (meson insertE set_update_subset_insert subsetD)
  with assms \<open>a = folder_id c\<close> show "a \<in> folder_id ` set fs"
    by (auto simp: image_iff)
qed

lemma updateFolder_well_formed:
  assumes wf: "well_formed (folders st)" and upd: "updateFolder i u st = Some (r, st')"
  shows "well_formed (folders st')"
proof (cases "folders st' = folders st")
  case True
  with wf show ?thesis by simp
next
  case False
  with updateFolder_shape [OF upd] obtain k f' where
    k: "k < length (folders st)" "folder_id (folders st ! k) = i"
    and fs: "folders st' = (folders st)[k := f']" and id: "folder_id f' = i"
    and par: "parentId f' = parentId (folders st ! k) \<or> \<not> truthy (parentId f') \<or>
               (parentId f' \<noteq> Some i \<and>
                (\<exists>ds. getDescendantFolderIds (folders st) i = Some ds \<and>
                      the (parentId f') \<notin> set ds))"
    by blast
  let ?R = "parent_rel (folders st)"
  have acyc: "acyclic ?R" and ne: "[] \<notin> folder_id ` set (folders st)"
    using wf by (simp_all add: well_formed_def)
  have i_ne: "i \<noteq> []"
    using k ne by (metis image_eqI nth_mem)
  have sub: "parent_rel (folders st') \<subseteq>
           (case parentId f' of None \<Rightarrow> ?R | Some p \<Rightarrow> insert (i, p) ?R)"
    unfolding fs using parent_rel_update_subset [OF k(1), of f'] id k(2)
    by (auto split: option.splits)
  have ids: "[] \<notin> folder_id ` set (folders st')"
    unfolding fs using update_ids [OF k(1), of f'] id k(2) ne by auto
  have "acyclic (parent_rel (folders st'))"
  proof (cases "parentId f'")
    case None
    with sub acyc show ?thesis by (simp add: acyclic_subset)
  next
    case (Some p)
    have "(p, i) \<notin> ?R\<^sup>* \<or> parentId f' = parentId (folders st ! k)"
      using par
    proof (elim disjE conjE exE)
      assume "parentId f' = parentId (folders st ! k)"
      then show ?thesis by simp
    next
      assume "\<not> truthy (parentId f')"
      with Some have p: "p = []" by (simp add: truthy_def)
      have "(p, i) \<notin> ?R\<^sup>*"
      proof
        assume "(p, i) \<in> ?R\<^sup>*"
        then have "p \<in> Domain ?R"
          using i_ne p by (intro rtrancl_into_Domain [of p i]) auto
        then have "p \<in> folder_id ` set (folders st)"
          using Domain_parent_rel by blast
        with p ne show False by simp
      qed
      then show ?thesis by simp
    next
      fix ds
      assume "parentId f' \<noteq> Some i" and ds: "getDescendantFolderIds (folders st) i = Some ds"
        and "the (parentId f') \<notin> set ds"
      with Some have "p \<noteq> i" "p \<notin> set ds" by simp_all
      then have "(p, i) \<notin> ?R\<^sup>+"
        using getDescendantFolderIds_set [OF ds] by simp
      with \<open>p \<noteq> i\<close> have "(p, i) \<notin> ?R\<^sup>*"
        by (simp add: rtrancl_eq_or_trancl)
      then show ?thesis by simp
    qed
    then show ?thesis
    proof
      assume "(p, i) \<notin> ?R\<^sup>*"
      then have ins: "acyclic (insert (i, p) ?R)"
        using acyc by simp
      have "parent_rel (folders st') \<subseteq> insert (i, p) ?R"
        using sub Some by simp
      with ins show ?thesis by (rule acyclic_subset)
    next
      assume "parentId f' = parentId (folders st ! k)"
      then have "parent_rel (folders st') = ?R"
        unfolding fs using parent_rel_same_parent [OF k(1), of f'] id k(2) by simp
      with acyc show ?thesis by simp
    qed
  qed
  with ids show ?thesis by (simp add: well_formed_def)
qed

lemma deleteFolder_well_formed:
  assumes wf: "well_formed (folders st)" and del: "deleteFolder i st = Some st'"
  shows "well_formed (folders st')"
proof -
  from del obtain ds where "folders st' = filter (\<lambda>f. folder_id f \<notin> set (i # ds)) (folders st)"
    by (auto simp: deleteFolder_def Let_def split: option.splits)
  then have "parent_rel (folders st') \<subseteq> parent_rel (folders st)"
    and "set (folders st') \<subseteq> set (folders st)"
    by (simp_all add: parent_rel_filter)
  with wf show ?thesis
    by (auto simp: well_formed_def intro: acyclic_subset)
qed

lemma moveSessionToFolder_folders [simp]:
  "folders (moveSessionToFolder s g st) = folders st"
  by (simp add: moveSessionToFolder_def Let_def)

lemma reachable_well_formed:
  assumes "reachable st0 st" and "well_formed (folders st0)"
  shows "well_formed (folders st)"
  using assms
proof (induction rule: reachable.induct)
  case start
  then show ?case by simp
next
  case (create st stamp rnd parent nm col)
  then show ?case by (simp add: createFolder_well_formed)
next
  case (update st i u r st')
  then show ?case by (simp add: updateFolder_well_formed)
next
  case (delete st i st')
  then show ?case by (simp add: deleteFolder_well_formed)
next
  case (move st s g)
  then show ?case by simp
qed

text \<open>
  With the guard, acyclicity is kept along every such run that starts in an acyclic
  forest with non-empty ids.
\<close>

lemma reachable_acyclic:
  assumes "acyclic (parent_rel (folders st0))" and "[] \<notin> folder_id ` set (folders st0)"
    and "reachable st0 st"
  shows "acyclic (parent_rel (folders st))"
  using reachable_well_formed [OF assms(3)] assms(1,2) by (simp add: well_formed_def)

text \<open>
  C2: no operation is to lead from an acyclic forest to one in which a folder is its own
  ancestor. The same call of \<^verbatim>\<open>updateFolder\<close> of \<^verbatim>\<open>index.js\<close> does: afterwards \<open>w\<close> is
  its own ancestor, and the descendant enumeration of \<open>w\<close> no longer returns.
\<close>

theorem updateFolder_index_breaks_acyclicity:
  "acyclic (parent_rel (folders example_state)) \<and>
   \<not> acyclic (parent_rel
        (folders (snd (updateFolder_index ''w'' reparent_under_child example_state)))) \<and>
   getDescendantFolderIds
     (folders (snd (updateFolder_index ''w'' reparent_under_child example_state))) ''w'' = None"
proof -
  let ?fs = "folders (snd (updateFolder_index ''w'' reparent_under_child example_state))"
  have i: "find_index (\<lambda>f. folder_id f = ''w'') (folders example_state) = Some 0"
    by (simp add: example_state_def example_folders_def mk_folder_def)
  have fs: "?fs = (mk_folder ''w'' (Some ''w-api'') 0) # tl example_folders"
    by (simp add: updateFolder_index_def i Let_def reparent_under_child_def)
       (simp add: example_state_def example_folders_def mk_folder_def)
  have "(''w'', ''w-api'') \<in> parent_rel ?fs"
    unfolding fs by (simp add: parent_rel_iff mk_folder_def)
  moreover have "(''w-api'', ''w'') \<in> parent_rel ?fs"
    unfolding fs by (simp add: parent_rel_iff example_folders_def mk_folder_def)
  ultimately have cyc: "(''w'', ''w'') \<in> (parent_rel ?fs)\<^sup>+"
    by (meson trancl.intros)
  then have "\<not> acyclic (parent_rel ?fs)"
    by (auto simp: acyclic_def)
  moreover have "acyclic (parent_rel (folders example_state))"
    using example_folders_acyclic by (simp add: example_state_def)
  moreover have "getDescendantFolderIds ?fs ''w'' = None"
    using cyc by (intro getDescendantFolderIds_cycle_below [of "''w''"]) simp_all
  ultimately show ?thesis by blast
qed

section \<open>Sibling order in the tree view\<close>

text \<open>With the comparator \<^verbatim>\<open>(a, b) => a.order - b.order\<close> the built-in sort is the
  stable insertion sort by the key \<^verbatim>\<open>order\<close>.\<close>

lemma js_insert_by_order:
  fixes f :: "'a \<Rightarrow> int"
  shows "js_insert (\<lambda>a b. f a - f b) x ys = insort_key f x ys"
  by (induction ys) simp_all

lemma js_sort_by_order:
  fixes f :: "'a \<Rightarrow> int"
  shows "js_sort (\<lambda>a b. f a - f b) xs = sort_key f xs"
proof -
  have "js_insert (\<lambda>a b. f a - f b) = insort_key f"
    by (intro ext) (rule js_insert_by_order)
  then show ?thesis by (simp add: js_sort_def sort_key_def)
qed

lemma js_sort_sorted:
  fixes f :: "'a \<Rightarrow> int"
  shows "sorted (map f (js_sort (\<lambda>a b. f a - f b) xs))"
  by (simp add: js_sort_by_order)

lemma js_sort_stable:
  fixes f :: "'a \<Rightarrow> int"
  shows "filter (\<lambda>y. f y = k) (js_sort (\<lambda>a b. f a - f b) xs) = filter (\<lambda>y. f y = k) xs"
  by (simp add: js_sort_by_order sort_key_stable)

text \<open>
  What the loop writes: one item per folder of the list, in the order of the list, and
  in every item of the rendered tree the child items are the sorted child folders when
  the content block is written, and none otherwise.
\<close>

definition children_as_sorted :: "state \<Rightarrow> item \<Rightarrow> bool" where
  "children_as_sorted st n =
     (map item_folder (item_children n) =
        (if item_expanded n \<and> item_hasContent n
         then js_sort (\<lambda>a b. order a - order b)
                (filter (\<lambda>f. parentId f = Some (folder_id (item_folder n))) (folders st))
         else []))"

lemma render_loop_shape:
  assumes "render_loop st sessions depth list = Some items"
  shows "map item_folder items = list \<and>
         (\<forall>n \<in> set (concat (map item_nodes items)). children_as_sorted st n)"
proof (rule render_loop.raw_induct
    [where P = "\<lambda>st sessions depth list items. map item_folder items = list \<and>
         (\<forall>n \<in> set (concat (map item_nodes items)). children_as_sorted st n)",
      OF _ assms])
  fix r :: "state \<Rightarrow> session list \<Rightarrow> nat \<Rightarrow> folder list \<Rightarrow> item list option"
    and st sessions depth list items
  assume IH: "\<And>st sessions depth list items. r st sessions depth list = Some items \<Longrightarrow>
                map item_folder items = list \<and>
                (\<forall>n \<in> set (concat (map item_nodes items)). children_as_sorted st n)"
    and body: "(if list = [] then Some []
      else
        let folder = hd list;
            rest = tl list;
            isExpanded = folder_id folder \<in> set (expandedFolders st);
            folderSessions =
              filter (\<lambda>s. js_get (sessionFolders st) (session_id s) = Str (folder_id folder)) sessions;
            childFolders = filter (\<lambda>f. parentId f = Some (folder_id folder)) (folders st);
            hasContent = (folderSessions \<noteq> [] \<or> childFolders \<noteq> [])
        in do {
             kids \<leftarrow>
               (if isExpanded \<and> hasContent
                then r st sessions (depth + 1)
                       (js_sort (\<lambda>a b. order a - order b) childFolders)
                else Some []);
             more \<leftarrow> r st sessions depth rest;
             Some (FolderItem folder depth isExpanded hasContent (length folderSessions) kids
                     (if isExpanded \<and> hasContent then folderSessions else [])
                   # more)
           }) = Some items"
  show "map item_folder items = list \<and>
         (\<forall>n \<in> set (concat (map item_nodes items)). children_as_sorted st n)"
  proof (cases list)
    case Nil
    with body show ?thesis by simp
  next
    case (Cons folder rest)
    define isExpanded where "isExpanded = (folder_id folder \<in> set (expandedFolders st))"
    define folderSessions where "folderSessions =
       filter (\<lambda>s. js_get (sessionFolders st) (session_id s) = Str (folder_id folder)) sessions"
    define childFolders where "childFolders =
       filter (\<lambda>f. parentId f = Some (folder_id folder)) (folders st)"
    define hasContent where "hasContent = (folderSessions \<noteq> [] \<or> childFolders \<noteq> [])"
    have body': "do {
             kids \<leftarrow>
               (if isExpanded \<and> hasContent
                then r st sessions (depth + 1)
                       (js_sort (\<lambda>a b. order a - order b) childFolders)
                else Some []);
             more \<leftarrow> r st sessions depth rest;
             Some (FolderItem folder depth isExpanded hasContent (length folderSessions) kids
                     (if isExpanded \<and> hasContent then folderSessions else [])
                   # more)
           } = Some items"
      unfolding isExpanded_def hasContent_def folderSessions_def childFolders_def
      using body Cons by (simp add: Let_def)
    then obtain kids more where
      kids: "(if isExpanded \<and> hasContent
                then r st sessions (depth + 1) (js_sort (\<lambda>a b. order a - order b) childFolders)
                else Some []) = Some kids" and
      more: "r st sessions depth rest = Some more" and
      items: "items = FolderItem folder depth isExpanded hasContent (length folderSessions) kids
                     (if isExpanded \<and> hasContent then folderSessions else []) # more"
      by (auto simp: bind_eq_Some_conv)
    have k: "map item_folder kids =
               (if isExpanded \<and> hasContent then js_sort (\<lambda>a b. order a - order b) childFolders else [])"
      and kn: "\<forall>n \<in> set (concat (map item_nodes kids)). children_as_sorted st n"
    proof -
      show "map item_folder kids =
               (if isExpanded \<and> hasContent then js_sort (\<lambda>a b. order a - order b) childFolders else [])"
      proof (cases "isExpanded \<and> hasContent")
        case True
        with kids IH show ?thesis by simp
      next
        case False
        with kids show ?thesis by auto
      qed
      show "\<forall>n \<in> set (concat (map item_nodes kids)). children_as_sorted st n"
      proof (cases "isExpanded \<and> hasContent")
        case True
        with kids IH show ?thesis by simp
      next
        case False
        with kids show ?thesis by auto
      qed
    qed
    have m: "map item_folder more = rest"
      and mn: "\<forall>n \<in> set (concat (map item_nodes more)). children_as_sorted st n"
      using IH [OF more] by simp_all
    have top: "children_as_sorted st
        (FolderItem folder depth isExpanded hasContent (length folderSessions) kids
                     (if isExpanded \<and> hasContent then folderSessions else []))"
      using k by (simp add: children_as_sorted_def childFolders_def)
    show ?thesis
      using m mn kn top by (auto simp: items Cons)
  qed
qed

definition tie_folders :: "folder list" where
  "tie_folders =
     [mk_folder ''b'' None 1,
      mk_folder ''a'' None 0,
      mk_folder ''c'' None 1,
      mk_folder ''a-y'' (Some ''a'') 2,
      mk_folder ''a-x'' (Some ''a'') 2,
      mk_folder ''a-w'' (Some ''a'') 1]"

definition tie_state :: state where
  "tie_state =
     \<lparr>folders = tie_folders,
      sessionFolders = [''s1'' \<mapsto> ''a''],
      expandedFolders = [''a''],
      api_storage = example_storage,
      console = [],
      changed_events = 0\<rparr>"

definition tie_sessions :: "session list" where
  "tie_sessions =
     [\<lparr>session_id = ''s1'', session_name = Some ''prod''\<rparr>,
      \<lparr>session_id = ''s2'', session_name = None\<rparr>]"

lemma tie_render:
  "renderList tie_state tie_sessions =
     Some (Tree
       [FolderItem (mk_folder ''a'' None 0) 0 True True 1
          [FolderItem (mk_folder ''a-w'' (Some ''a'') 1) 1 False False 0 [] [],
           FolderItem (mk_folder ''a-y'' (Some ''a'') 2) 1 False False 0 [] [],
           FolderItem (mk_folder ''a-x'' (Some ''a'') 2) 1 False False 0 [] []]
          [\<lparr>session_id = ''s1'', session_name = Some ''prod''\<rparr>],
        FolderItem (mk_folder ''b'' None 1) 0 False False 0 [] [],
        FolderItem (mk_folder ''c'' None 1) 0 False False 0 [] []]
       (Some [\<lparr>session_id = ''s2'', session_name = None\<rparr>]))"
  by (simp add: renderList_def Let_def render_loop_Cons renderFolderItem_def js_sort_def
      tie_state_def tie_folders_def tie_sessions_def mk_folder_def truthy_def
      js_get_def js_truthy_def Object_prototype_keys_def)

text \<open>
  C7: whenever \<^verbatim>\<open>renderList\<close> produces a tree, the root items are sorted by \<^verbatim>\<open>order\<close>
  ascending and, for every value of \<^verbatim>\<open>order\<close>, the root folders with that value stand in
  the order in which the folder list holds them; the same holds for the child items of
  every item of the tree whose content block is written, against the child folders of
  its folder.
\<close>

theorem renderList_siblings_sorted_stable:
  assumes "renderList st sessions = Some (Tree items uncategorized)"
  shows "sorted (map order (map item_folder items)) \<and>
         (\<forall>k. filter (\<lambda>f. order f = k) (map item_folder items) =
              filter (\<lambda>f. order f = k) (filter (\<lambda>f. \<not> truthy (parentId f)) (folders st))) \<and>
         (\<forall>n \<in> set (concat (map item_nodes items)).
            sorted (map order (map item_folder (item_children n))) \<and>
            (item_expanded n \<and> item_hasContent n \<longrightarrow>
               (\<forall>k. filter (\<lambda>f. order f = k) (map item_folder (item_children n)) =
                    filter (\<lambda>f. order f = k)
                      (filter (\<lambda>f. parentId f = Some (folder_id (item_folder n))) (folders st)))))"
proof -
  from assms have r: "render_loop st sessions 0
      (js_sort (\<lambda>a b. order a - order b) (filter (\<lambda>f. \<not> truthy (parentId f)) (folders st))) = Some items"
    by (auto simp: renderList_def Let_def bind_eq_Some_conv split: if_splits)
  from render_loop_shape [OF r]
  have root: "map item_folder items =
      js_sort (\<lambda>a b. order a - order b) (filter (\<lambda>f. \<not> truthy (parentId f)) (folders st))"
    and nodes: "\<forall>n \<in> set (concat (map item_nodes items)). children_as_sorted st n"
    by simp_all
  have "sorted (map order (map item_folder (item_children n))) \<and>
            (item_expanded n \<and> item_hasContent n \<longrightarrow>
               (\<forall>k. filter (\<lambda>f. order f = k) (map item_folder (item_children n)) =
                    filter (\<lambda>f. order f = k)
                      (filter (\<lambda>f. parentId f = Some (folder_id (item_folder n))) (folders st))))"
    if "n \<in> set (concat (map item_nodes items))" for n
  proof (cases "item_expanded n \<and> item_hasContent n")
    case True
    with nodes that have eq: "map item_folder (item_children n) =
        js_sort (\<lambda>a b. order a - order b)
          (filter (\<lambda>f. parentId f = Some (folder_id (item_folder n))) (folders st))"
      unfolding children_as_sorted_def by metis
    show ?thesis
      unfolding eq using js_sort_sorted [of order] js_sort_stable [of order] by blast
  next
    case False
    with nodes that have "map item_folder (item_children n) = []"
      unfolding children_as_sorted_def by metis
    with False show ?thesis by auto
  qed
  moreover have "sorted (map order (map item_folder items)) \<and>
         (\<forall>k. filter (\<lambda>f. order f = k) (map item_folder items) =
              filter (\<lambda>f. order f = k) (filter (\<lambda>f. \<not> truthy (parentId f)) (folders st)))"
    unfolding root using js_sort_sorted [of order] js_sort_stable [of order] by blast
  ultimately show ?thesis by blast
qed

theorem renderList_siblings_sorted_stable_witness:
  "\<exists>items uncategorized.
     renderList tie_state tie_sessions = Some (Tree items uncategorized) \<and>
     map folder_id (map item_folder items) = [''a'', ''b'', ''c''] \<and>
     map folder_id (map item_folder (item_children (hd items))) = [''a-w'', ''a-y'', ''a-x''] \<and>
     sorted (map order (map item_folder items)) \<and>
     filter (\<lambda>f. order f = 1) (map item_folder items) =
       filter (\<lambda>f. order f = 1) (filter (\<lambda>f. \<not> truthy (parentId f)) (folders tie_state)) \<and>
     sorted (map order (map item_folder (item_children (hd items))))"
proof -
  let ?items = "[FolderItem (mk_folder ''a'' None 0) 0 True True 1
          [FolderItem (mk_folder ''a-w'' (Some ''a'') 1) 1 False False 0 [] [],
           FolderItem (mk_folder ''a-y'' (Some ''a'') 2) 1 False False 0 [] [],
           FolderItem (mk_folder ''a-x'' (Some ''a'') 2) 1 False False 0 [] []]
          [\<lparr>session_id = ''s1'', session_name = Some ''prod''\<rparr>],
        FolderItem (mk_folder ''b'' None 1) 0 False False 0 [] [],
        FolderItem (mk_folder ''c'' None 1) 0 False False 0 [] []]"
  note t = renderList_siblings_sorted_stable [OF tie_render]
  have 1: "sorted (map order (map item_folder ?items))"
    using t by blast
  have 2: "filter (\<lambda>f. order f = 1) (map item_folder ?items) =
       filter (\<lambda>f. order f = 1) (filter (\<lambda>f. \<not> truthy (parentId f)) (folders tie_state))"
    using t by blast
  have "hd ?items \<in> set (concat (map item_nodes ?items))"
    by simp
  with t have 3: "sorted (map order (map item_folder (item_children (hd ?items))))"
    by blast
  have 4: "map folder_id (map item_folder ?items) = [''a'', ''b'', ''c'']"
    "map folder_id (map item_folder (item_children (hd ?items))) = [''a-w'', ''a-y'', ''a-x'']"
    by (simp_all add: mk_folder_def)
  show ?thesis
    by (intro exI conjI) (rule tie_render 1 2 3 4)+
qed

text \<open>On an acyclic forest \<^verbatim>\<open>renderList\<close> returns.\<close>

lemma js_sort_set:
  fixes f :: "'a \<Rightarrow> int"
  shows "set (js_sort (\<lambda>a b. f a - f b) xs) = set xs"
  by (simp add: js_sort_by_order)

lemma render_loop_total_if:
  assumes "\<And>c d. c \<in> set list \<Longrightarrow>
      \<exists>items. render_loop st sessions d
        (js_sort (\<lambda>a b. order a - order b)
           (filter (\<lambda>f. parentId f = Some (folder_id c)) (folders st))) = Some items"
  shows "\<exists>items. render_loop st sessions depth list = Some items"
  using assms
proof (induction list)
  case Nil
  then show ?case by simp
next
  case (Cons c list)
  obtain kids where "render_loop st sessions (depth + 1)
        (js_sort (\<lambda>a b. order a - order b)
           (filter (\<lambda>f. parentId f = Some (folder_id c)) (folders st))) = Some kids"
    using Cons.prems [of c "depth + 1"] by auto
  then have "\<exists>it. renderFolderItem st c sessions depth = Some it"
    by (simp add: renderFolderItem_def Let_def)
  then obtain it where "renderFolderItem st c sessions depth = Some it" ..
  moreover obtain more where "render_loop st sessions depth list = Some more"
    using Cons.IH Cons.prems by auto
  ultimately show ?case by (simp add: render_loop_Cons)
qed

lemma render_children_total:
  assumes "acyclic (parent_rel (folders st))"
  shows "\<exists>items. render_loop st sessions depth
        (js_sort (\<lambda>a b. order a - order b)
           (filter (\<lambda>f. parentId f = Some x) (folders st))) = Some items"
  using wf_parent_rel [OF assms]
proof (induction x arbitrary: depth rule: wf_induct_rule)
  case (less x)
  show ?case
  proof (rule render_loop_total_if)
    fix c d
    assume "c \<in> set (js_sort (\<lambda>a b. order a - order b)
                 (filter (\<lambda>f. parentId f = Some x) (folders st)))"
    then have "(folder_id c, x) \<in> parent_rel (folders st)"
      by (auto simp: js_sort_set parent_rel_iff)
    from less [OF this]
    show "\<exists>items. render_loop st sessions d
        (js_sort (\<lambda>a b. order a - order b)
           (filter (\<lambda>f. parentId f = Some (folder_id c)) (folders st))) = Some items" .
  qed
qed

lemma renderList_total:
  assumes "acyclic (parent_rel (folders st))"
  shows "\<exists>v. renderList st sessions = Some v"
proof -
  have "\<exists>items. render_loop st sessions 0
      (js_sort (\<lambda>a b. order a - order b) (filter (\<lambda>f. \<not> truthy (parentId f)) (folders st))) = Some items"
    by (rule render_loop_total_if) (rule render_children_total [OF assms])
  then show ?thesis
    by (auto simp: renderList_def Let_def)
qed

end
